theory Spec2Isabelle
  imports Main "HOL-Library.Word"
begin

unbundle bit_operations_syntax

section \<open>The three 32-bit domains\<close>

text \<open>
  \<open>SearchPod32<T, LUT_BITS>\<close> is instantiated at \<open>T = uint32_t\<close>, \<open>int32_t\<close> and
  \<open>float\<close>. Every value of the three types is a 32-bit pattern; the template argument
  decides how \<open><\<close> and \<open>==\<close> read it. A value is therefore a \<open>32 word\<close>, and the
  template argument is a parameter of type \<open>domain\<close>.
\<close>

type_synonym val = "32 word"

datatype domain = U32 | I32 | F32

text \<open>
  IEEE 754 binary32 comparison on the encodings (sign bit 31, exponent bits 30..23,
  fraction bits 22..0). A NaN has all exponent bits set and a non-zero fraction; it
  compares false with everything. The two zeros \<open>0x00000000\<close> and \<open>0x80000000\<close> are
  equal. Otherwise a set sign bit means smaller, and within one sign the magnitudes
  \<open>bits 30..0\<close> order the values (reversed for negative ones).
\<close>

definition float_isnan :: "val \<Rightarrow> bool" where
  "float_isnan v = (v AND 0x7FFFFFFF > 0x7F800000)"

definition float_sign :: "val \<Rightarrow> bool" where
  "float_sign v = (drop_bit 31 v = 1)"

definition float_lt :: "val \<Rightarrow> val \<Rightarrow> bool" where
  "float_lt a b =
     (if float_isnan a \<or> float_isnan b then False
      else if float_sign a \<noteq> float_sign b
           then float_sign a \<and> push_bit 1 (a OR b) \<noteq> 0
           else a \<noteq> b \<and> (float_sign a \<noteq> (a < b)))"

definition float_eq :: "val \<Rightarrow> val \<Rightarrow> bool" where
  "float_eq a b =
     (if float_isnan a \<or> float_isnan b then False
      else a = b \<or> push_bit 1 (a OR b) = 0)"

text \<open>
  The value of a float that is no NaN, times \<open>2 ^ 149\<close>, which makes it an integer:
  with exponent field \<open>e\<close> and fraction field \<open>m\<close> the magnitude is
  \<open>m * 2 ^ (-149)\<close> when \<open>e = 0\<close> (zero and the subnormal numbers) and
  \<open>(2 ^ 23 + m) * 2 ^ (e - 150)\<close> otherwise. An infinity (\<open>e = 255\<close>, \<open>m = 0\<close>) gets
  the magnitude \<open>2 ^ 128\<close>, above every finite float, which is how IEEE 754 orders it.
  \<open>mag_value\<close> is the same magnitude as a function of the bits 30..0.
\<close>

definition float_mag :: "nat \<Rightarrow> nat \<Rightarrow> int" where
  "float_mag e m = (if e = 0 then int m else (2 ^ 23 + int m) * 2 ^ (e - 1))"

definition float_value :: "val \<Rightarrow> int" where
  "float_value v =
     (let e = unat (drop_bit 23 v AND 0xFF);
          m = unat (v AND 0x7FFFFF)
      in if float_sign v then - float_mag e m else float_mag e m)"

definition mag_value :: "nat \<Rightarrow> int" where
  "mag_value x = float_mag (x div 2 ^ 23) (x mod 2 ^ 23)"

text \<open>\<open>a < b\<close> and \<open>a == b\<close> at type \<open>T\<close>.\<close>

fun less_dom :: "domain \<Rightarrow> val \<Rightarrow> val \<Rightarrow> bool" where
  "less_dom U32 a b = (a < b)"
| "less_dom I32 a b = (a <s b)"
| "less_dom F32 a b = float_lt a b"

fun eq_dom :: "domain \<Rightarrow> val \<Rightarrow> val \<Rightarrow> bool" where
  "eq_dom U32 a b = (a = b)"
| "eq_dom I32 a b = (a = b)"
| "eq_dom F32 a b = float_eq a b"

text \<open>
  An integer that orders the values of a domain as \<open><\<close> does (for \<open>float\<close>, on the
  values that are no NaN; lemmas \<open>less_dom_ord_key\<close> and \<open>eq_dom_ord_key\<close>).
\<close>

fun ord_key :: "domain \<Rightarrow> val \<Rightarrow> int" where
  "ord_key U32 v = uint v"
| "ord_key I32 v = sint v"
| "ord_key F32 v = float_value v"


section \<open>MapValue\<close>

text \<open>
  The three specialisations of \<open>MapValue\<close>. For \<open>float\<close>, \<open>cv >> 31\<close> is 0 or 1, its
  negation as \<open>int32_t\<close> is 0 or -1, and the bitwise or with \<open>0x80000000\<close> is taken
  at 32 bits.
\<close>

fun MapValue :: "domain \<Rightarrow> val \<Rightarrow> val" where
  "MapValue U32 v = v"
| "MapValue I32 v = v XOR 0x80000000"
| "MapValue F32 v =
     (let cv = v;
          mask = (- (drop_bit 31 cv)) OR 0x80000000
      in cv XOR mask)"

section \<open>Vectors and errors\<close>

text \<open>
  \<open>std::vector::operator[]\<close> beyond \<open>size()\<close> is undefined behaviour, and
  \<open>resize\<close> beyond \<open>max_size()\<close> throws \<open>std::length_error\<close>; both are error
  values of the model. \<open>StaticAssert\<close> is the failed \<open>static_assert\<close> of the
  constructor. \<open>size_t\<close> and \<open>ssize_t\<close> are 64-bit words; \<open>sint\<close> reads an
  \<open>ssize_t\<close>.
\<close>

datatype error = OutOfBounds | LengthError | StaticAssert

type_synonym size_t = "64 word"

definition size_vec :: "'a list \<Rightarrow> size_t" where
  "size_vec xs = word_of_nat (length xs)"

definition at_vec :: "'a list \<Rightarrow> size_t \<Rightarrow> error + 'a" where
  "at_vec xs i = (if unat i < length xs then Inr (xs ! unat i) else Inl OutOfBounds)"

text \<open>\<open>max_size()\<close> of \<open>std::vector<size_t>\<close>: \<open>PTRDIFF_MAX / sizeof(size_t)\<close>.\<close>

definition max_size :: size_t where
  "max_size = 0x7FFFFFFFFFFFFFFF div 8"

section \<open>The class SearchPod32\<close>

record SearchPod32 =
  Lut :: "size_t list"
  Vals :: "val list"
  LutEnd :: size_t

text \<open>The bucket of a mapped key: \<open>mapped >> (32 - LUT_BITS)\<close>, a \<open>uint32_t\<close>.\<close>

definition bucket :: "domain \<Rightarrow> nat \<Rightarrow> val \<Rightarrow> 32 word" where
  "bucket d B v = drop_bit (32 - B) (MapValue d v)"

subsection \<open>BinarySearch\<close>

text \<open>
  The loop of \<open>BinarySearch\<close> on \<open>__first\<close> and \<open>__len\<close>, both \<open>size_t\<close>. The
  function returns \<open>__first\<close> when the loop ends: the statements after
  \<open>return __first;\<close> are never reached.
\<close>

function BinarySearch_loop ::
  "domain \<Rightarrow> val list \<Rightarrow> val \<Rightarrow> size_t \<Rightarrow> size_t \<Rightarrow> error + size_t" where
  "BinarySearch_loop d vals key first len =
     (if len > 0 then
        (let half = drop_bit 1 len;
             middle = first + half
         in case at_vec vals middle of
              Inl e \<Rightarrow> Inl e
            | Inr vm \<Rightarrow>
                if less_dom d vm key
                then BinarySearch_loop d vals key (middle + 1) (len - half - 1)
                else BinarySearch_loop d vals key first half)
      else Inr first)"
  by pat_completeness auto

lemma unat_half: "unat (drop_bit 1 (len::64 word)) = unat len div 2"
  by (simp add: drop_bit_eq_div unat_div)

lemma unat_rest:
  assumes "0 < (len::64 word)"
  shows "unat (len - drop_bit 1 len - 1) = unat len - unat len div 2 - 1"
proof -
  have pos: "0 < unat len" using assms by (simp add: word_less_nat_alt)
  have h: "drop_bit 1 len \<le> len" unfolding word_le_nat_alt unat_half by simp
  then have a: "unat (len - drop_bit 1 len) = unat len - unat len div 2"
    unfolding unat_sub[OF h] unat_half by simp
  with pos have "1 \<le> unat (len - drop_bit 1 len)" by simp
  then have "1 \<le> len - drop_bit 1 len" by (simp add: word_le_nat_alt)
  then show ?thesis using a by (simp add: unat_sub)
qed

termination BinarySearch_loop
proof (relation "measure (\<lambda>(d, vals, key, first, len). unat len)", goal_cases)
  case 1
  show ?case by simp
next
  case (2 d vals key first len half middle vm)
  then have "0 < unat len" by (simp add: word_less_nat_alt)
  then show ?case using unat_rest[OF 2(1)] 2(2) by simp
next
  case (3 d vals key first len half middle vm)
  then have "0 < unat len" by (simp add: word_less_nat_alt)
  then show ?case using unat_half[of len] 3(2) by simp
qed

declare BinarySearch_loop.simps [simp del]

text \<open>
  \<open>BinarySearch(left, right, key)\<close>: \<open>left\<close> and \<open>right\<close> are \<open>ssize_t\<close>, and
  \<open>__len = right - left\<close> converts the difference to \<open>size_t\<close>, so a negative
  difference becomes a length near \<open>2 ^ 64\<close>. The result is \<open>__first\<close> read as
  \<open>ssize_t\<close>.
\<close>

definition BinarySearch ::
  "domain \<Rightarrow> val list \<Rightarrow> size_t \<Rightarrow> size_t \<Rightarrow> val \<Rightarrow> error + int" where
  "BinarySearch d vals left right key =
     (let len = right - left;
          first = left
      in map_sum id sint (BinarySearch_loop d vals key first len))"

subsection \<open>The three entry points\<close>

text \<open>
  \<open>std::lower_bound\<close> over the whole vector, by the loop of the standard library
  (the one \<open>BinarySearch\<close> was taken from), on positions \<open>first\<close> and a length
  \<open>len\<close> with \<open>first + len \<le> size()\<close>.
\<close>

fun lower_bound :: "domain \<Rightarrow> val list \<Rightarrow> val \<Rightarrow> nat \<Rightarrow> nat \<Rightarrow> nat" where
  "lower_bound d vals key first len =
     (if len > 0 then
        (let half = len div 2;
             middle = first + half
         in if less_dom d (vals ! middle) key
            then lower_bound d vals key (middle + 1) (len - half - 1)
            else lower_bound d vals key first half)
      else first)"

declare lower_bound.simps [simp del]

definition StdBinarySearch :: "domain \<Rightarrow> SearchPod32 \<Rightarrow> val \<Rightarrow> int" where
  "StdBinarySearch d s key =
     (let iter = lower_bound d (Vals s) key 0 (length (Vals s))
      in if iter \<noteq> length (Vals s) \<and> eq_dom d (Vals s ! iter) key
         then int iter else - 1)"

definition MyBinarySearch :: "domain \<Rightarrow> SearchPod32 \<Rightarrow> val \<Rightarrow> error + int" where
  "MyBinarySearch d s key = BinarySearch d (Vals s) 0 (size_vec (Vals s) - 1) key"

text \<open>
  The local \<open>end\<close> of \<open>LutBinarySearch\<close>. \<open>lutIdx + 1\<close> is a \<open>uint32_t\<close>,
  compared with the \<open>size_t\<close> \<open>LutEnd\<close> and used as an index after conversion.
\<close>

definition LutBinarySearch_end :: "domain \<Rightarrow> nat \<Rightarrow> SearchPod32 \<Rightarrow> val \<Rightarrow> error + size_t" where
  "LutBinarySearch_end d B s key =
     (let mappedKey = MapValue d key;
          lutIdx = drop_bit (32 - B) mappedKey
      in if ucast (lutIdx + 1) \<ge> LutEnd s
         then Inr (size_vec (Vals s) - 1)
         else map_sum id (\<lambda>x. x - 1) (at_vec (Lut s) (ucast (lutIdx + 1))))"

definition LutBinarySearch :: "domain \<Rightarrow> nat \<Rightarrow> SearchPod32 \<Rightarrow> val \<Rightarrow> error + int" where
  "LutBinarySearch d B s key =
     (let mappedKey = MapValue d key;
          lutIdx = drop_bit (32 - B) mappedKey
      in case at_vec (Lut s) (ucast lutIdx) of
           Inl e \<Rightarrow> Inl e
         | Inr start \<Rightarrow>
             (case LutBinarySearch_end d B s key of
                Inl e \<Rightarrow> Inl e
              | Inr end' \<Rightarrow> BinarySearch d (Vals s) start end' key))"

subsection \<open>InitLut and the constructor\<close>

text \<open>
  The inner loop \<open>for (size_t j = thresh + 1; j <= nextThresh; j++) Lut[j] = last\<close>;
  \<open>nextThresh\<close> is a \<open>uint32_t\<close>, converted to \<open>size_t\<close> for the comparison.
\<close>

function InitLut_fill :: "size_t list \<Rightarrow> size_t \<Rightarrow> 32 word \<Rightarrow> size_t \<Rightarrow> size_t list" where
  "InitLut_fill lut j nextThresh last' =
     (if j \<le> ucast nextThresh
      then InitLut_fill (lut[unat j := last']) (j + 1) nextThresh last'
      else lut)"
  by pat_completeness auto

lemma unat_ucast_32_64: "unat (ucast (w::32 word) :: 64 word) = unat w"
proof -
  have "unat w < 2 ^ 32" using unsigned_less[of w] by simp
  then have "unat w < 2 ^ 64" by simp
  then show ?thesis by (simp add: unsigned_ucast_eq take_bit_nat_eq_self)
qed

lemma unat_succ_le_ucast:
  assumes "(j::64 word) \<le> ucast (w::32 word)"
  shows "unat (j + 1) = unat j + 1"
proof -
  have "unat j \<le> unat w" using assms by (simp add: word_le_nat_alt unat_ucast_32_64)
  moreover have "unat w < 2^32" using unsigned_less[of w] by simp
  ultimately have "unat j + 1 < 2^64" by simp
  then show ?thesis by (simp add: unat_add_lem[THEN iffD1])
qed

termination InitLut_fill
proof (relation "measure (\<lambda>(lut, j, nextThresh, last'). unat nextThresh + 1 - unat j)", goal_cases)
  case 1
  show ?case by simp
next
  case (2 lut j nextThresh last')
  then have "unat j \<le> unat nextThresh" by (simp add: word_le_nat_alt unat_ucast_32_64)
  then show ?case using unat_succ_le_ucast[OF 2] by simp
qed

text \<open>
  The closing loop \<open>for (size_t i = thresh; i < Lut.size() - 1; i++) Lut[i] = last\<close>.
  It stops before the last entry of the table.
\<close>

function InitLut_rest :: "size_t list \<Rightarrow> size_t \<Rightarrow> size_t \<Rightarrow> size_t list" where
  "InitLut_rest lut i last' =
     (if i < size_vec lut - 1
      then InitLut_rest (lut[unat i := last']) (i + 1) last'
      else lut)"
  by pat_completeness auto

lemma unat_succ_less:
  assumes "(i::64 word) < b"
  shows "unat (i + 1) = unat i + 1"
proof -
  have "unat i < unat b" using assms by (simp add: word_less_nat_alt)
  moreover have "unat b < 2^64" using unsigned_less[of b] by simp
  ultimately have "unat i + 1 < 2^64" by simp
  then show ?thesis by (simp add: unat_add_lem[THEN iffD1])
qed

termination InitLut_rest
proof (relation "measure (\<lambda>(lut, i, last'). unat (size_vec lut - 1) - unat i)", goal_cases)
  case 1
  show ?case by simp
next
  case (2 lut i last')
  then have "unat i < unat (size_vec lut - 1)" by (simp add: word_less_nat_alt)
  then show ?case using unat_succ_less[OF 2] by (simp add: size_vec_def)
qed

text \<open>
  The main loop over \<open>i\<close>, an \<open>ssize_t\<close> that counts up from 0 while
  \<open>i < (ssize_t)Vals.size() - 1\<close>; the state is \<open>Lut\<close>, \<open>thresh\<close> and
  \<open>last\<close>. \<open>Vals[i + 1]\<close> is in range by the loop condition. Every index written
  is \<open>thresh\<close> or lies in \<open>(thresh, nextThresh]\<close>, both values of
  \<open>mapped >> (32 - LUT_BITS)\<close> (or the initial 0) and so below \<open>2 ^ LUT_BITS\<close>,
  inside the table (lemmas \<open>bucket_less\<close> and \<open>InitLut_loop_inv\<close> below); the
  writes are list updates.
\<close>

function InitLut_loop ::
  "domain \<Rightarrow> nat \<Rightarrow> val list \<Rightarrow> nat \<Rightarrow> size_t list \<Rightarrow> size_t \<Rightarrow> size_t
     \<Rightarrow> size_t list \<times> size_t \<times> size_t" where
  "InitLut_loop d B vals i lut thresh last' =
     (if int i < int (length vals) - 1 then
        (let mappedNextVal = MapValue d (vals ! (i + 1));
             nextThresh = drop_bit (32 - B) mappedNextVal;
             lut1 = lut[unat thresh := last']
         in if ucast nextThresh > thresh
            then (let last1 = word_of_nat (i + 1)
                  in InitLut_loop d B vals (i + 1)
                       (InitLut_fill lut1 (thresh + 1) nextThresh last1) (ucast nextThresh) last1)
            else InitLut_loop d B vals (i + 1) lut1 (ucast nextThresh) last')
      else (lut, thresh, last'))"
  by pat_completeness auto
termination
  by (relation "measure (\<lambda>(d, B, vals, i, lut, thresh, last'). length vals - i)") auto

declare InitLut_fill.simps [simp del] InitLut_rest.simps [simp del] InitLut_loop.simps [simp del]

text \<open>
  \<open>Lut.resize((1 << LUT_BITS) + 1)\<close>: the shift and the addition are done at type
  \<open>int\<close> (32 bits, two's complement) and the result is converted to \<open>size_t\<close>,
  with sign extension. A fresh vector is filled with zeros. A size beyond
  \<open>max_size()\<close> throws.
\<close>

definition lut_size :: "nat \<Rightarrow> size_t" where
  "lut_size B = scast ((push_bit B 1 + 1) :: 32 word)"

definition InitLut :: "domain \<Rightarrow> nat \<Rightarrow> val list \<Rightarrow> error + SearchPod32" where
  "InitLut d B vals =
     (if lut_size B > max_size then Inl LengthError
      else (case InitLut_loop d B vals 0 (replicate (unat (lut_size B)) 0) 0 0 of
              (lut, thresh, last') \<Rightarrow>
                Inr \<lparr>Lut = InitLut_rest lut thresh last', Vals = vals, LutEnd = thresh\<rparr>))"

text \<open>
  The constructor: \<open>static_assert(LUT_BITS > 0 && LUT_BITS < 32)\<close>, then \<open>InitLut\<close>.
\<close>

definition SearchPod32 :: "domain \<Rightarrow> nat \<Rightarrow> val list \<Rightarrow> error + SearchPod32" where
  "SearchPod32 d B vals =
     (if 0 < B \<and> B < 32 then InitLut d B vals else Inl StaticAssert)"


subsection \<open>Sorted backing arrays\<close>

text \<open>
  Ascending under the domain's \<open><\<close>, as \<open>std::sort\<close> leaves the vector: no later
  element is smaller than an earlier one. For \<open>float\<close> the array holds no NaN.
\<close>

fun isnan_dom :: "domain \<Rightarrow> val \<Rightarrow> bool" where
  "isnan_dom F32 v = float_isnan v"
| "isnan_dom U32 v = False"
| "isnan_dom I32 v = False"

definition sorted_dom :: "domain \<Rightarrow> val list \<Rightarrow> bool" where
  "sorted_dom d vals =
     (sorted_wrt (\<lambda>a b. \<not> less_dom d b a) vals \<and> list_all (\<lambda>v. \<not> isnan_dom d v) vals)"

subsection \<open>What a table entry stands for\<close>

text \<open>
  The index of the first element of the array whose bucket (the top \<open>LUT_BITS\<close> bits
  of its mapped key) is at least \<open>i\<close>, and the length of the array when there is none.
  This is the meaning the comment in \<open>LutBinarySearch\<close> gives to \<open>Lut[i]\<close> (the
  interval start of the \<open>i\<close>-th entry); it is not computed by the code.
\<close>

definition first_bucket_ge :: "domain \<Rightarrow> nat \<Rightarrow> val list \<Rightarrow> nat \<Rightarrow> nat" where
  "first_bucket_ge d B vals i = length (takeWhile (\<lambda>v. unat (bucket d B v) < i) vals)"

subsection \<open>The invariant of the main loop of InitLut\<close>

text \<open>
  At the head of the loop, with \<open>N\<close> the length of the array: the table has its
  \<open>2 ^ LUT_BITS + 1\<close> entries, \<open>thresh\<close> is a bucket index, \<open>last\<close> is at most \<open>i\<close>
  and at most \<open>N - 1\<close>, no entry is above \<open>last\<close>, and the entries up to \<open>thresh\<close> are
  non-decreasing.
\<close>

definition InitLut_inv :: "nat \<Rightarrow> nat \<Rightarrow> nat \<Rightarrow> size_t list \<Rightarrow> size_t \<Rightarrow> size_t \<Rightarrow> bool" where
  "InitLut_inv B N i lut thresh last' \<longleftrightarrow>
     length lut = 2 ^ B + 1 \<and> unat thresh < 2 ^ B \<and> unat last' \<le> i \<and> unat last' \<le> N - 1 \<and>
     (\<forall>j < length lut. lut ! j \<le> last') \<and>
     (\<forall>j k. j \<le> k \<and> k \<le> unat thresh \<longrightarrow> lut ! j \<le> lut ! k)"

text \<open>
  What the table means at the head of the loop, when the buckets of the array are
  non-decreasing and the first element is in bucket 0: \<open>thresh\<close> is the bucket of
  \<open>Vals[i]\<close>, \<open>last\<close> is the index of the first element of that bucket, and every
  entry up to \<open>thresh\<close> is the index of the first element whose bucket is at least the
  index of the entry.
\<close>

definition InitLut_sem ::
  "domain \<Rightarrow> nat \<Rightarrow> val list \<Rightarrow> nat \<Rightarrow> size_t list \<Rightarrow> size_t \<Rightarrow> size_t \<Rightarrow> bool" where
  "InitLut_sem d B vals i lut thresh last' \<longleftrightarrow>
     i < length vals \<and> length lut = 2 ^ B + 1 \<and>
     unat thresh = unat (bucket d B (vals ! i)) \<and>
     unat last' = first_bucket_ge d B vals (unat thresh) \<and>
     (\<forall>t \<le> unat thresh. unat (lut ! t) = first_bucket_ge d B vals t)"

section \<open>MapValue preserves the order of each domain\<close>

lemma xor_exp_add:
  fixes a :: "'a::len word"
  assumes top: "(2::'a word) ^ n + 2 ^ n = 0"
  shows "a XOR 2 ^ n = a + 2 ^ n"
proof (cases "bit a n")
  case False
  then have "a AND 2 ^ n = 0" by (simp add: and_exp_eq_0_iff_not_bit)
  then show ?thesis by (simp only: disjunctive_add_eq_xor)
next
  case True
  from True have "n < LENGTH('a)" by (rule bit_imp_le_length)
  with True have "\<not> bit (a XOR 2 ^ n) n" by (simp add: bit_simps)
  then have "(a XOR 2 ^ n) AND 2 ^ n = 0" by (simp add: and_exp_eq_0_iff_not_bit)
  then have "(a XOR 2 ^ n) + 2 ^ n = (a XOR 2 ^ n) XOR 2 ^ n"
    by (rule disjunctive_add_eq_xor)
  also have "\<dots> = a" by (simp add: xor.assoc)
  finally have "a XOR 2 ^ n = a - 2 ^ n" by (simp add: algebra_simps)
  also have "\<dots> = a + 2 ^ n" using top by (simp add: algebra_simps eq_neg_iff_add_eq_0)
  finally show ?thesis .
qed

lemma xor_msb_add: "(a::32 word) XOR 0x80000000 = a + 0x80000000"
  using xor_exp_add[of 31 a] by simp

lemma uint_xor_msb: "uint ((a::32 word) XOR 0x80000000) = sint a + 2^31"
  unfolding xor_msb_add
  by (simp add: uint_word_ariths sint_uint signed_take_bit_eq_take_bit_shift take_bit_eq_mod)

lemma drop_bit_31: "drop_bit 31 (v::32 word) = (if v < 0x80000000 then 0 else 1)"
proof -
  have d: "unat (drop_bit 31 v) = unat v div 2^31" by (simp add: drop_bit_eq_div unat_div)
  have b: "unat v < 2^32" using unsigned_less[of v] by simp
  show ?thesis
  proof (cases "v < 0x80000000")
    case True
    then have "unat v < 2^31" by (simp add: word_less_nat_alt)
    with d have "unat (drop_bit 31 v) = 0" by simp
    then have "drop_bit 31 v = 0" by (simp only: unat_eq_0)
    with True show ?thesis by simp
  next
    case False
    then have "2^31 \<le> unat v" by (simp add: word_less_nat_alt)
    with b d have "unat (drop_bit 31 v) = 1" by simp
    then have "drop_bit 31 v = 1" by (metis unat_1 word_unat_eq_iff)
    with False show ?thesis by simp
  qed
qed

lemma MapValue_F32_cases:
  "MapValue F32 v = (if v < 0x80000000 then v + 0x80000000 else NOT v)"
  by (simp add: drop_bit_31 xor_msb_add)


lemma uint_NOT: "uint (NOT (v::32 word)) = 2^32 - 1 - uint v"
proof -
  have b: "0 \<le> uint v" "uint v < 2^32" using uint_bounded[of v] by simp_all
  have "uint (NOT v) = (NOT (uint v)) mod 2^32"
    by (simp add: word_not_def uint_word_of_int)
  also have "\<dots> = (- uint v - 1) mod 2^32" by (simp add: not_int_def)
  also have "- uint v - 1 = (2^32 - 1 - uint v) + (-1) * 2^32" by simp
  finally have "uint (NOT v) = ((2^32 - 1 - uint v) + (-1) * 2^32) mod 2^32" .
  also have "\<dots> = (2^32 - 1 - uint v) mod 2^32" by (rule mod_mult_self1)
  also have "\<dots> = 2^32 - 1 - uint v" using b by (intro mod_pos_pos_trivial) linarith+
  finally show ?thesis .
qed

lemma float_sign_iff: "float_sign v = (\<not> v < 0x80000000)"
  by (simp add: float_sign_def drop_bit_31)

lemma MapValue_U32_mono: "less_dom U32 a b \<Longrightarrow> MapValue U32 a < MapValue U32 b"
  by simp

lemma MapValue_I32_mono: "less_dom I32 a b \<Longrightarrow> MapValue I32 a < MapValue I32 b"
  by (simp add: word_sless_alt word_less_def uint_xor_msb)

lemma MapValue_F32_mono:
  assumes "less_dom F32 a b"
  shows "MapValue F32 a < MapValue F32 b"
proof -
  from assms have lt: "float_lt a b" by simp
  have ua: "uint a < 2^32" and ub: "uint b < 2^32"
    using uint_bounded[of a] uint_bounded[of b] by simp_all
  consider (nn) "a < 0x80000000" "b < 0x80000000"
    | (np) "a < 0x80000000" "\<not> b < 0x80000000"
    | (pn) "\<not> a < 0x80000000" "b < 0x80000000"
    | (pp) "\<not> a < 0x80000000" "\<not> b < 0x80000000"
    by blast
  then show ?thesis
  proof cases
    case nn
    with lt have "a < b"
      by (auto simp: float_lt_def float_sign_iff split: if_splits)
    with nn show ?thesis unfolding MapValue_F32_cases
      by (simp add: word_less_def uint_word_ariths)
  next
    case np
    with lt show ?thesis
      by (auto simp: float_lt_def float_sign_iff split: if_splits)
  next
    case pn
    have "uint (NOT a) < 2^31" using pn ua by (simp add: uint_NOT word_less_def)
    moreover have "2^31 \<le> uint (b + 0x80000000)"
      using pn by (simp add: uint_word_ariths word_less_def)
    ultimately have "uint (NOT a) < uint (b + 0x80000000)" by linarith
    with pn show ?thesis unfolding MapValue_F32_cases by (simp add: word_less_def)
  next
    case pp
    with lt have "b < a"
      by (auto simp: float_lt_def float_sign_iff split: if_splits)
    with pp show ?thesis unfolding MapValue_F32_cases
      by (simp add: word_less_def uint_NOT)
  qed
qed

text \<open>
  C5: for every pair of values \<open>a < b\<close> under the order of the domain (unsigned 32-bit
  integers, signed 32-bit integers, 32-bit floats; a NaN is below nothing and nothing is
  below it, so the hypothesis excludes it), \<open>MapValue a < MapValue b\<close> as unsigned 32-bit
  integers.
\<close>

theorem MapValue_order_preserving:
  "less_dom d a b \<Longrightarrow> MapValue d a < MapValue d b"
  by (cases d) (simp_all only: MapValue_U32_mono MapValue_I32_mono MapValue_F32_mono)

text \<open>The theorem at \<open>-1.0f < 1.0f\<close>, mapped to \<open>0x407FFFFF < 0xBF800000\<close>.\<close>

theorem MapValue_order_preserving_witness:
  "less_dom F32 0xBF800000 0x3F800000 \<and> MapValue F32 0xBF800000 = 0x407FFFFF
   \<and> MapValue F32 0x3F800000 = 0xBF800000
   \<and> MapValue F32 0xBF800000 < MapValue F32 0x3F800000"
proof -
  have h: "less_dom F32 0xBF800000 0x3F800000"
    by (simp add: float_lt_def float_isnan_def float_sign_def)
  show ?thesis
    using h MapValue_order_preserving [OF h] by simp
qed

section \<open>The comparison of floats is the comparison of their values\<close>

text \<open>
  \<open>float_lt\<close> and \<open>float_eq\<close> are defined on the encodings. On floats that are no
  NaN they are \<open><\<close> and \<open>=\<close> of the values.
\<close>

lemma float_mag_mono:
  assumes "m < 2 ^ 23" "m' < 2 ^ 23" "e * 2 ^ 23 + m < e' * 2 ^ 23 + m'"
  shows "float_mag e m < float_mag e' m'"
proof (cases "e = e'")
  case True
  with assms have "m < m'" by simp
  then show ?thesis using True by (simp add: float_mag_def)
next
  case False
  have "e < e'"
  proof (rule ccontr)
    assume "\<not> e < e'"
    with False have "e' + 1 \<le> e" by simp
    then have "(e' + 1) * 2 ^ 23 \<le> e * 2 ^ 23" by (rule mult_le_mono1)
    with assms show False by simp
  qed
  have up: "float_mag e m < 2 ^ 23 * 2 ^ e"
  proof (cases "e = 0")
    case True
    then show ?thesis using assms(1) by (simp add: float_mag_def)
  next
    case False
    then obtain k where k: "e = Suc k" by (cases e) auto
    have "(2 ^ 23 + int m) * 2 ^ k < (2 ^ 23 + 2 ^ 23) * 2 ^ k"
      using assms(1) by (intro mult_strict_right_mono) simp_all
    then show ?thesis by (simp add: float_mag_def k)
  qed
  obtain k' where k': "e' = Suc k'" using \<open>e < e'\<close> by (cases e') auto
  with \<open>e < e'\<close> have "e \<le> k'" by simp
  then have "(2::int) ^ e \<le> 2 ^ k'" by (intro power_increasing) simp_all
  then have "2 ^ 23 * (2::int) ^ e \<le> 2 ^ 23 * 2 ^ k'" by simp
  also have "\<dots> \<le> (2 ^ 23 + int m') * 2 ^ k'" by (intro mult_right_mono) simp_all
  also have "\<dots> = float_mag e' m'" by (simp add: float_mag_def k')
  finally show ?thesis using up by simp
qed


lemma mag_value_strict_mono: "strict_mono mag_value"
proof (rule strict_monoI)
  fix x y :: nat
  assume "x < y"
  then have "x div 2 ^ 23 * 2 ^ 23 + x mod 2 ^ 23 < y div 2 ^ 23 * 2 ^ 23 + y mod 2 ^ 23"
    by simp
  then show "mag_value x < mag_value y"
    unfolding mag_value_def by (intro float_mag_mono) simp_all
qed

lemma mag_value_0: "mag_value 0 = 0"
  by (simp add: mag_value_def float_mag_def)

lemma mag_value_nonneg: "0 \<le> mag_value x"
  using strict_mono_less_eq[OF mag_value_strict_mono, of 0 x] by (simp add: mag_value_0)

lemma mag_value_eq_0: "(mag_value x = 0) = (x = 0)"
  using strict_mono_eq[OF mag_value_strict_mono, of x 0] by (simp add: mag_value_0)

lemma float_value_unat:
  "float_value v = (if 2 ^ 31 \<le> unat v then - mag_value (unat v mod 2 ^ 31)
                    else mag_value (unat v mod 2 ^ 31))"
proof -
  have m: "unat (v AND 0x7FFFFF) = unat v mod 2 ^ 23"
  proof -
    have "v AND 0x7FFFFF = take_bit 23 v" by (simp add: take_bit_eq_mask mask_eq_exp_minus_1)
    then have "unat (v AND 0x7FFFFF) = take_bit 23 (unat v)"
      by (simp only: unsigned_take_bit_eq)
    then show ?thesis by (simp only: take_bit_eq_mod)
  qed
  have e: "unat (drop_bit 23 v AND 0xFF) = unat v div 2 ^ 23 mod 2 ^ 8"
  proof -
    have "drop_bit 23 v AND 0xFF = take_bit 8 (drop_bit 23 v)"
      by (simp add: take_bit_eq_mask mask_eq_exp_minus_1)
    then have "unat (drop_bit 23 v AND 0xFF) = take_bit 8 (drop_bit 23 (unat v))"
      by (simp only: unsigned_take_bit_eq unat_drop_bit_eq)
    then show ?thesis by (simp only: take_bit_eq_mod drop_bit_eq_div)
  qed
  have e': "unat v mod 2 ^ 31 div 2 ^ 23 = unat v div 2 ^ 23 mod 2 ^ 8"
    using drop_bit_take_bit[of 23 31 "unat v"]
    by (simp add: take_bit_eq_mod drop_bit_eq_div)
  have m': "unat v mod 2 ^ 31 mod 2 ^ 23 = unat v mod 2 ^ 23"
    using take_bit_take_bit[of 23 31 "unat v"] by (simp add: take_bit_eq_mod)
  have s: "float_sign v = (2 ^ 31 \<le> unat v)"
    by (simp add: float_sign_iff word_less_nat_alt not_less)
  show ?thesis
    unfolding float_value_def mag_value_def Let_def m e e' m' s ..
qed

lemma shl_or_eq_0:
  "(push_bit 1 ((a::32 word) OR b) = 0) = (unat a mod 2 ^ 31 = 0 \<and> unat b mod 2 ^ 31 = 0)"
proof -
  have one: "(push_bit 1 w = 0) = (unat w mod 2 ^ 31 = 0)" for w :: "32 word"
  proof -
    have "unat (push_bit 1 w) = (2 * unat w) mod (2 * 2 ^ 31)"
      by (simp add: push_bit_eq_mult unat_word_ariths mult.commute)
    also have "\<dots> = 2 * (unat w mod 2 ^ 31)" by (rule mult_mod_right[symmetric])
    finally have "unat (push_bit 1 w) = 2 * (unat w mod 2 ^ 31)" .
    then have "(unat (push_bit 1 w) = 0) = (unat w mod 2 ^ 31 = 0)" by simp
    then show ?thesis by (simp only: unat_eq_0)
  qed
  have "push_bit 1 (a OR b) = push_bit 1 a OR push_bit 1 b" by (rule push_bit_or)
  then show ?thesis by (simp only: or_eq_0_iff one)
qed

lemma float_lt_iff_value:
  assumes "\<not> float_isnan a" "\<not> float_isnan b"
  shows "float_lt a b = (float_value a < float_value b)"
proof -
  have ua: "unat a < 2 ^ 32" and ub: "unat b < 2 ^ 32"
    using unsigned_less[of a] unsigned_less[of b] by simp_all
  note G = strict_mono_less[OF mag_value_strict_mono]
  have sa: "float_sign a = (2 ^ 31 \<le> unat a)" and sb: "float_sign b = (2 ^ 31 \<le> unat b)"
    by (simp_all add: float_sign_iff word_less_nat_alt not_less)
  have lt: "float_lt a b =
     (if (2 ^ 31 \<le> unat a) \<noteq> (2 ^ 31 \<le> unat b)
      then 2 ^ 31 \<le> unat a \<and> \<not> (unat a mod 2 ^ 31 = 0 \<and> unat b mod 2 ^ 31 = 0)
      else unat a \<noteq> unat b \<and> ((2 ^ 31 \<le> unat a) \<noteq> (unat a < unat b)))"
    using assms unfolding float_lt_def sa sb shl_or_eq_0
    by (simp add: word_less_nat_alt word_unat_eq_iff)
  consider (pp) "unat a < 2 ^ 31" "unat b < 2 ^ 31"
    | (pn) "unat a < 2 ^ 31" "2 ^ 31 \<le> unat b"
    | (np) "2 ^ 31 \<le> unat a" "unat b < 2 ^ 31"
    | (nn) "2 ^ 31 \<le> unat a" "2 ^ 31 \<le> unat b"
    by linarith
  then show ?thesis
  proof cases
    case pp
    then show ?thesis unfolding lt float_value_unat by (auto simp: G)
  next
    case pn
    then show ?thesis unfolding lt float_value_unat
      using mag_value_nonneg[of "unat a mod 2 ^ 31"] mag_value_nonneg[of "unat b mod 2 ^ 31"]
      by auto
  next
    case np
    then show ?thesis unfolding lt float_value_unat
      using mag_value_nonneg[of "unat a mod 2 ^ 31"] mag_value_nonneg[of "unat b mod 2 ^ 31"]
        mag_value_eq_0[of "unat a mod 2 ^ 31"] mag_value_eq_0[of "unat b mod 2 ^ 31"]
      by auto
  next
    case nn
    have xa: "unat a mod 2 ^ 31 = unat a - 2 ^ 31" and xb: "unat b mod 2 ^ 31 = unat b - 2 ^ 31"
      using nn ua ub by (simp_all add: mod_if)
    show ?thesis unfolding lt float_value_unat xa xb using nn by (auto simp: G)
  qed
qed


lemma float_eq_iff_value:
  assumes "\<not> float_isnan a" "\<not> float_isnan b"
  shows "float_eq a b = (float_value a = float_value b)"
proof -
  have ua: "unat a < 2 ^ 32" and ub: "unat b < 2 ^ 32"
    using unsigned_less[of a] unsigned_less[of b] by simp_all
  note G = strict_mono_eq[OF mag_value_strict_mono]
  have eq: "float_eq a b =
     (unat a = unat b \<or> (unat a mod 2 ^ 31 = 0 \<and> unat b mod 2 ^ 31 = 0))"
    using assms unfolding float_eq_def shl_or_eq_0 by (simp add: word_unat_eq_iff)
  consider (pp) "unat a < 2 ^ 31" "unat b < 2 ^ 31"
    | (pn) "unat a < 2 ^ 31" "2 ^ 31 \<le> unat b"
    | (np) "2 ^ 31 \<le> unat a" "unat b < 2 ^ 31"
    | (nn) "2 ^ 31 \<le> unat a" "2 ^ 31 \<le> unat b"
    by linarith
  then show ?thesis
  proof cases
    case pp
    then show ?thesis unfolding eq float_value_unat
      using mag_value_eq_0[of "unat a"] mag_value_eq_0[of "unat b"] by (auto simp: G)
  next
    case pn
    then show ?thesis unfolding eq float_value_unat
      using mag_value_nonneg[of "unat a mod 2 ^ 31"] mag_value_nonneg[of "unat b mod 2 ^ 31"]
        mag_value_eq_0[of "unat a mod 2 ^ 31"] mag_value_eq_0[of "unat b mod 2 ^ 31"]
      by auto
  next
    case np
    then show ?thesis unfolding eq float_value_unat
      using mag_value_nonneg[of "unat a mod 2 ^ 31"] mag_value_nonneg[of "unat b mod 2 ^ 31"]
        mag_value_eq_0[of "unat a mod 2 ^ 31"] mag_value_eq_0[of "unat b mod 2 ^ 31"]
      by auto
  next
    case nn
    have xa: "unat a mod 2 ^ 31 = unat a - 2 ^ 31" and xb: "unat b mod 2 ^ 31 = unat b - 2 ^ 31"
      using nn ua ub by (simp_all add: mod_if)
    show ?thesis unfolding eq float_value_unat xa xb using nn
      using mag_value_eq_0[of "unat a - 2 ^ 31"] mag_value_eq_0[of "unat b - 2 ^ 31"]
      by (auto simp: G)
  qed
qed

section \<open>MyBinarySearch and StdBinarySearch on sorted arrays\<close>

text \<open>
  On a non-empty array \<open>MyBinarySearch\<close> stays inside the array, and its loop computes
  what \<open>std::lower_bound\<close> computes on the same range. On a sorted array and for a key
  that occurs in it, \<open>MyBinarySearch\<close> and \<open>StdBinarySearch\<close> return the index of the
  first occurrence. (\<open>MyBinarySearch\<close> searches \<open>[0, N - 1)\<close> and never compares the
  last element: when every element before it is smaller, the last one is the answer.)
\<close>

lemma less_dom_ord_key:
  assumes "\<not> isnan_dom d a" "\<not> isnan_dom d b"
  shows "less_dom d a b = (ord_key d a < ord_key d b)"
proof (cases d)
  case U32
  then show ?thesis by (simp add: word_less_def)
next
  case I32
  then show ?thesis by (simp add: word_sless_alt)
next
  case F32
  then show ?thesis using assms by (simp add: float_lt_iff_value)
qed

lemma eq_dom_ord_key:
  assumes "\<not> isnan_dom d a" "\<not> isnan_dom d b"
  shows "eq_dom d a b = (ord_key d a = ord_key d b)"
proof (cases d)
  case U32
  then show ?thesis by (simp add: word_uint_eq_iff)
next
  case I32
  then show ?thesis by (auto intro: signed_word_eqI)
next
  case F32
  then show ?thesis using assms by (simp add: float_eq_iff_value)
qed


lemma lower_bound_spec:
  assumes "first + len \<le> length vals"
    and sorted: "\<And>i j. i \<le> j \<Longrightarrow> j < length vals \<Longrightarrow> f (vals ! i) \<le> f (vals ! j)"
    and less: "\<And>i. i < length vals \<Longrightarrow> less_dom d (vals ! i) key = (f (vals ! i) < (K::int))"
  shows "first \<le> lower_bound d vals key first len
         \<and> lower_bound d vals key first len \<le> first + len
         \<and> (\<forall>i. first \<le> i \<and> i < lower_bound d vals key first len \<longrightarrow> f (vals ! i) < K)
         \<and> (\<forall>i. lower_bound d vals key first len \<le> i \<and> i < first + len \<longrightarrow> K \<le> f (vals ! i))"
  using assms
proof (induction d vals key first len rule: lower_bound.induct)
  case (1 d vals key first len)
  note sorted = 1(4) and less = 1(5)
  show ?case
  proof (cases "0 < len")
    case False
    then show ?thesis by (subst (1 2 3 4) lower_bound.simps) simp
  next
    case True
    let ?half = "len div 2"
    let ?middle = "first + ?half"
    have mlt: "?middle < first + len" using True by simp
    then have ml: "?middle < length vals" using 1(3) by simp
    show ?thesis
    proof (cases "less_dom d (vals ! ?middle) key")
      case lt: True
      let ?r = "lower_bound d vals key (?middle + 1) (len - ?half - 1)"
      have eq: "lower_bound d vals key first len = ?r"
        using True lt by (subst lower_bound.simps) (simp add: Let_def)
      have "?middle + 1 + (len - ?half - 1) \<le> length vals" using 1(3) True by simp
      from 1(1)[OF True refl refl lt this sorted less]
      have ih: "?middle + 1 \<le> ?r" "?r \<le> ?middle + 1 + (len - ?half - 1)"
        "\<And>i. ?middle + 1 \<le> i \<Longrightarrow> i < ?r \<Longrightarrow> f (vals ! i) < K"
        "\<And>i. ?r \<le> i \<Longrightarrow> i < ?middle + 1 + (len - ?half - 1) \<Longrightarrow> K \<le> f (vals ! i)"
        by auto
      have sum: "?middle + 1 + (len - ?half - 1) = first + len" using True by simp
      have fm: "f (vals ! ?middle) < K" using lt less[OF ml] by simp
      have low: "f (vals ! i) < K" if "first \<le> i" "i < ?r" for i
      proof (cases "i \<le> ?middle")
        case True
        from sorted[OF True ml] fm show ?thesis by simp
      next
        case False
        then show ?thesis using ih(3)[of i] that by simp
      qed
      show ?thesis unfolding eq using ih(1) ih(2) ih(4) low sum by auto
    next
      case ge: False
      let ?r = "lower_bound d vals key first ?half"
      have eq: "lower_bound d vals key first len = ?r"
        using True ge by (subst lower_bound.simps) (simp add: Let_def)
      have "first + ?half \<le> length vals" using 1(3) by simp
      from 1(2)[OF True refl refl ge this sorted less]
      have ih: "first \<le> ?r" "?r \<le> ?middle"
        "\<And>i. first \<le> i \<Longrightarrow> i < ?r \<Longrightarrow> f (vals ! i) < K"
        "\<And>i. ?r \<le> i \<Longrightarrow> i < ?middle \<Longrightarrow> K \<le> f (vals ! i)"
        by auto
      have fm: "K \<le> f (vals ! ?middle)" using ge less[OF ml] by simp
      have high: "K \<le> f (vals ! i)" if "?r \<le> i" "i < first + len" for i
      proof (cases "i < ?middle")
        case True
        then show ?thesis using ih(4)[of i] that by simp
      next
        case False
        then have "?middle \<le> i" by simp
        from sorted[OF this] that 1(3) fm show ?thesis by simp
      qed
      show ?thesis unfolding eq using ih(1) ih(2) ih(3) high mlt by auto
    qed
  qed
qed

lemma unat_plus_no_wrap:
  "unat (a::size_t) + unat b < 2 ^ 64 \<Longrightarrow> unat (a + b) = unat a + unat b"
  by (simp add: unat_add_lem[THEN iffD1])

lemma sint_small:
  assumes "unat (r::size_t) < 2 ^ 63"
  shows "sint r = int (unat r)"
proof -
  have u: "uint r = int (unat r)" by (rule uint_nat)
  have "int (unat r) < int (2 ^ 63)" using assms by (simp only: of_nat_less_iff)
  then have hi: "uint r < 2 ^ 63" unfolding u by simp
  have "- (2 ^ 63) \<le> (0::int)" by simp
  also have "0 \<le> uint r" by (rule uint_ge_0)
  finally have lo: "- (2 ^ 63) \<le> uint r" .
  have "signed_take_bit 63 (uint r) = uint r"
    using lo hi by (rule signed_take_bit_int_eq_self)
  then have "sint r = uint r" by (simp add: sint_uint)
  then show ?thesis unfolding u .
qed

lemma BinarySearch_loop_in_range:
  assumes "unat first + unat len < length vals" "length vals < 2 ^ 64"
  shows "\<exists>r. BinarySearch_loop d vals key first len = Inr r
             \<and> unat first \<le> unat r \<and> unat r \<le> unat first + unat len"
  using assms
proof (induction d vals key first len rule: BinarySearch_loop.induct)
  case (1 d vals key first len)
  show ?case
  proof (cases "0 < len")
    case False
    then show ?thesis by (subst BinarySearch_loop.simps) simp
  next
    case True
    let ?half = "drop_bit 1 len"
    let ?middle = "first + ?half"
    have pos: "0 < unat len" using True by (simp add: word_less_nat_alt)
    have h: "unat ?half = unat len div 2" by (rule unat_half)
    have m: "unat ?middle = unat first + unat len div 2"
      using 1(3) 1(4) h by (subst unat_plus_no_wrap) simp_all
    have mlt: "unat ?middle < length vals" using m 1(3) pos by simp
    then have at: "at_vec vals ?middle = Inr (vals ! unat ?middle)" by (simp add: at_vec_def)
    show ?thesis
    proof (cases "less_dom d (vals ! unat ?middle) key")
      case less: True
      have m1: "unat (?middle + 1) = unat first + unat len div 2 + 1"
        using m mlt 1(4) by (subst unat_plus_no_wrap) simp_all
      have r: "unat (len - ?half - 1) = unat len - unat len div 2 - 1"
        by (rule unat_rest[OF True])
      have "unat (?middle + 1) + unat (len - ?half - 1) < length vals"
        using m1 r pos 1(3) by simp
      from 1(1)[OF True refl refl at less this 1(4)]
      obtain res where res: "BinarySearch_loop d vals key (?middle + 1) (len - ?half - 1) = Inr res"
        "unat (?middle + 1) \<le> unat res" "unat res \<le> unat (?middle + 1) + unat (len - ?half - 1)"
        by auto
      have "BinarySearch_loop d vals key first len = Inr res"
        using True at less res(1) by (subst BinarySearch_loop.simps) (simp add: Let_def)
      moreover have "unat first \<le> unat res" using res(2) m1 by simp
      moreover have "unat res \<le> unat first + unat len" using res(3) m1 r pos by simp
      ultimately show ?thesis by blast
    next
      case ge: False
      have "unat first + unat ?half < length vals" using h 1(3) by simp
      from 1(2)[OF True refl refl at ge this 1(4)]
      obtain res where res: "BinarySearch_loop d vals key first ?half = Inr res"
        "unat first \<le> unat res" "unat res \<le> unat first + unat ?half"
        by auto
      have "BinarySearch_loop d vals key first len = Inr res"
        using True at ge res(1) by (subst BinarySearch_loop.simps) (simp add: Let_def)
      moreover have "unat res \<le> unat first + unat len" using res(3) h by simp
      ultimately show ?thesis using res(2) by blast
    qed
  qed
qed

lemma MyBinarySearch_in_range:
  assumes "1 \<le> length (Vals s)" "length (Vals s) < 2 ^ 63"
  shows "\<exists>i. MyBinarySearch d s key = Inr i \<and> 0 \<le> i \<and> i \<le> int (length (Vals s)) - 1"
proof -
  have lt: "length (Vals s) < 2 ^ 64" using assms(2) by simp
  have sz: "unat (size_vec (Vals s) - 1) = length (Vals s) - 1"
  proof -
    have "size_vec (Vals s) - 1 = word_of_nat (length (Vals s) - 1)"
      using assms(1) by (simp add: size_vec_def)
    moreover have "length (Vals s) - 1 < 2 ^ 64" using lt by simp
    ultimately show ?thesis by (simp add: unat_of_nat)
  qed
  have "unat (0::size_t) + unat (size_vec (Vals s) - 1 - 0) < length (Vals s)"
    using sz assms(1) by simp
  from BinarySearch_loop_in_range[OF this lt, of d key]
  obtain r where r: "BinarySearch_loop d (Vals s) key 0 (size_vec (Vals s) - 1 - 0) = Inr r"
    "unat r \<le> length (Vals s) - 1" using sz by auto
  have "unat r < 2 ^ 63" using r(2) assms by simp
  then have "sint r = int (unat r)" by (rule sint_small)
  moreover have "int (unat r) \<le> int (length (Vals s)) - 1" using r(2) assms(1) by linarith
  moreover have "(0::int) \<le> int (unat r)" by (rule of_nat_0_le_iff)
  ultimately have "0 \<le> sint r \<and> sint r \<le> int (length (Vals s)) - 1" by (simp only:)
  then show ?thesis using r(1)
    by (simp add: MyBinarySearch_def BinarySearch_def Let_def)
qed


lemma BinarySearch_loop_lower_bound:
  assumes "unat first + unat len < length vals" "length vals < 2 ^ 64"
  shows "\<exists>r. BinarySearch_loop d vals key first len = Inr r
             \<and> unat r = lower_bound d vals key (unat first) (unat len)"
  using assms
proof (induction d vals key first len rule: BinarySearch_loop.induct)
  case (1 d vals key first len)
  show ?case
  proof (cases "0 < len")
    case False
    then have "unat len = 0" by (simp add: word_less_nat_alt)
    then show ?thesis using False
      by (subst BinarySearch_loop.simps, subst lower_bound.simps) simp
  next
    case True
    let ?half = "drop_bit 1 len"
    let ?middle = "first + ?half"
    have pos: "0 < unat len" using True by (simp add: word_less_nat_alt)
    have h: "unat ?half = unat len div 2" by (rule unat_half)
    have m: "unat ?middle = unat first + unat len div 2"
      using 1(3) 1(4) h by (subst unat_plus_no_wrap) simp_all
    have mlt: "unat ?middle < length vals" using m 1(3) pos by simp
    then have at: "at_vec vals ?middle = Inr (vals ! unat ?middle)" by (simp add: at_vec_def)
    show ?thesis
    proof (cases "less_dom d (vals ! unat ?middle) key")
      case less: True
      have m1: "unat (?middle + 1) = unat first + unat len div 2 + 1"
        using m mlt 1(4) by (subst unat_plus_no_wrap) simp_all
      have r: "unat (len - ?half - 1) = unat len - unat len div 2 - 1"
        by (rule unat_rest[OF True])
      have "unat (?middle + 1) + unat (len - ?half - 1) < length vals"
        using m1 r pos 1(3) by simp
      from 1(1)[OF True refl refl at less this 1(4)]
      obtain res where res: "BinarySearch_loop d vals key (?middle + 1) (len - ?half - 1) = Inr res"
        "unat res = lower_bound d vals key (unat (?middle + 1)) (unat (len - ?half - 1))"
        by auto
      have "BinarySearch_loop d vals key first len = Inr res"
        using True at less res(1) by (subst BinarySearch_loop.simps) (simp add: Let_def)
      moreover have "lower_bound d vals key (unat first) (unat len)
                     = lower_bound d vals key (unat first + unat len div 2 + 1)
                         (unat len - unat len div 2 - 1)"
        using pos less m by (subst lower_bound.simps) (simp add: Let_def)
      ultimately show ?thesis using res(2) m1 r by simp
    next
      case ge: False
      have "unat first + unat ?half < length vals" using h 1(3) by simp
      from 1(2)[OF True refl refl at ge this 1(4)]
      obtain res where res: "BinarySearch_loop d vals key first ?half = Inr res"
        "unat res = lower_bound d vals key (unat first) (unat ?half)"
        by auto
      have "BinarySearch_loop d vals key first len = Inr res"
        using True at ge res(1) by (subst BinarySearch_loop.simps) (simp add: Let_def)
      moreover have "lower_bound d vals key (unat first) (unat len)
                     = lower_bound d vals key (unat first) (unat len div 2)"
        using pos ge m by (subst lower_bound.simps) (simp add: Let_def)
      ultimately show ?thesis using res(2) h by simp
    qed
  qed
qed

lemma eq_dom_not_nan: "eq_dom d a b \<Longrightarrow> \<not> isnan_dom d b"
  by (cases d) (auto simp: float_eq_def split: if_splits)

lemma lower_bound_first_occurrence:
  assumes srt: "sorted_dom d vals"
    and k: "k < length vals" and found: "eq_dom d (vals ! k) key"
    and first: "\<And>j. j < k \<Longrightarrow> \<not> eq_dom d (vals ! j) key"
    and range: "a \<le> k" "k \<le> a + len" "a + len \<le> length vals"
  shows "lower_bound d vals key a len = k"
proof -
  let ?f = "ord_key d" and ?K = "ord_key d key"
  let ?N = "length vals"
  let ?r = "lower_bound d vals key a len"
  have nn: "\<not> isnan_dom d (vals ! i)" if "i < ?N" for i
    using srt that by (simp add: sorted_dom_def list_all_length)
  have nk: "\<not> isnan_dom d key" using found by (rule eq_dom_not_nan)
  have sorted: "?f (vals ! i) \<le> ?f (vals ! j)" if "i \<le> j" "j < ?N" for i j
  proof (cases "i = j")
    case False
    with that have "i < j" by simp
    with srt that have "\<not> less_dom d (vals ! j) (vals ! i)"
      by (simp add: sorted_dom_def sorted_wrt_iff_nth_less)
    then show ?thesis using that nn[of i] nn[of j] by (simp add: less_dom_ord_key)
  qed simp
  have less: "less_dom d (vals ! i) key = (?f (vals ! i) < ?K)" if "i < ?N" for i
    using nn[OF that] nk by (rule less_dom_ord_key)
  have fk: "?f (vals ! k) = ?K" using found nn[OF k] nk by (simp add: eq_dom_ord_key)
  have below: "?f (vals ! j) < ?K" if "j < k" for j
  proof -
    have "j < ?N" using that k by simp
    then have "?f (vals ! j) \<noteq> ?K" using first[OF that] nn[of j] nk by (simp add: eq_dom_ord_key)
    moreover have "?f (vals ! j) \<le> ?K" using sorted[of j k] that k fk by simp
    ultimately show ?thesis by simp
  qed
  note sp = lower_bound_spec[where f = ?f and K = ?K, OF range(3) sorted less]
  show ?thesis
  proof (rule ccontr)
    assume "?r \<noteq> k"
    then consider "k < ?r" | "?r < k" by linarith
    then show False
    proof cases
      case 1
      with sp range(1) have "?f (vals ! k) < ?K" by simp
      with fk show False by simp
    next
      case 2
      then have "?r < a + len" using range(2) by simp
      with sp have "?K \<le> ?f (vals ! ?r)" by simp
      with below[OF 2] show False by simp
    qed
  qed
qed

lemma BinarySearch_first_occurrence:
  assumes srt: "sorted_dom d vals" and N: "length vals < 2 ^ 63"
    and k: "k < length vals" and found: "eq_dom d (vals ! k) key"
    and first: "\<And>j. j < k \<Longrightarrow> \<not> eq_dom d (vals ! j) key"
    and range: "unat left \<le> k" "k \<le> unat right" "unat right < length vals"
  shows "BinarySearch d vals left right key = Inr (int k)"
proof -
  have lt: "length vals < 2 ^ 64" using N by simp
  have le: "left \<le> right" using range by (simp add: word_le_nat_alt)
  have len: "unat (right - left) = unat right - unat left" by (rule unat_sub[OF le])
  have "unat left + unat (right - left) < length vals" using len range by simp
  from BinarySearch_loop_lower_bound[OF this lt, of d key]
  obtain r where r: "BinarySearch_loop d vals key left (right - left) = Inr r"
    "unat r = lower_bound d vals key (unat left) (unat right - unat left)"
    using len by auto
  have "lower_bound d vals key (unat left) (unat right - unat left) = k"
    using range by (intro lower_bound_first_occurrence[OF srt k found first]) simp_all
  with r(2) have rk: "unat r = k" by simp
  then have "unat r < 2 ^ 63" using k N by simp
  then have "sint r = int k" using rk by (simp only: sint_small)
  then show ?thesis using r(1) by (simp add: BinarySearch_def Let_def)
qed

lemma plain_and_std_search_first_occurrence:
  assumes srt: "sorted_dom d (Vals s)" and N: "length (Vals s) < 2 ^ 63"
    and k: "k < length (Vals s)" and found: "eq_dom d (Vals s ! k) key"
    and first: "\<And>j. j < k \<Longrightarrow> \<not> eq_dom d (Vals s ! j) key"
  shows "MyBinarySearch d s key = Inr (int k)" and "StdBinarySearch d s key = int k"
proof -
  let ?N = "length (Vals s)"
  have "lower_bound d (Vals s) key 0 ?N = k"
    using k by (intro lower_bound_first_occurrence[OF srt k found first]) simp_all
  then show "StdBinarySearch d s key = int k"
    using k found by (simp add: StdBinarySearch_def Let_def)
  have sz: "unat (size_vec (Vals s) - 1) = ?N - 1"
  proof -
    have "size_vec (Vals s) - 1 = word_of_nat (?N - 1)" using k by (simp add: size_vec_def)
    moreover have "?N - 1 < 2 ^ 64" using N by simp
    ultimately show ?thesis by (simp add: unat_of_nat)
  qed
  show "MyBinarySearch d s key = Inr (int k)"
    unfolding MyBinarySearch_def
    by (rule BinarySearch_first_occurrence[OF srt N k found first]) (use sz k in simp_all)
qed

section \<open>Evaluation on concrete arrays\<close>

lemma minus_one_size_t: "(- 1 :: size_t) = 0xFFFFFFFFFFFFFFFF"
  by simp

lemmas search_eval =
  MyBinarySearch_def LutBinarySearch_def LutBinarySearch_end_def BinarySearch_def
  StdBinarySearch_def size_vec_def at_vec_def Let_def BinarySearch_loop.simps
  lower_bound.simps

subsection \<open>The first element of the array is never looked at by InitLut\<close>

text \<open>
  C1: for a sorted array and a key that occurs in it, the three searches should return
  the same index \<open>i\<close> with \<open>vals[i] == key\<close>. \<open>InitLut\<close> starts with \<open>thresh = 0\<close>
  and reads only \<open>Vals[i + 1]\<close>, so the bucket of \<open>Vals[0]\<close> is taken to be 0. On the
  sorted \<open>uint32_t\<close> array \<open>[0x40000000, 0x40000001]\<close> with \<open>LUT_BITS = 2\<close> both
  elements are in bucket 1, the table becomes \<open>[0, 1, 1, 1, 0]\<close>, and
  \<open>LutBinarySearch(0x40000000)\<close> returns 1, where the array holds \<open>0x40000001\<close>;
  \<open>MyBinarySearch\<close> and \<open>StdBinarySearch\<close> return 0.
\<close>

theorem LutBinarySearch_first_element_wrong_index:
  "sorted_dom U32 [0x40000000, 0x40000001]
   \<and> SearchPod32 U32 2 [0x40000000, 0x40000001]
       = Inr \<lparr>Lut = [0, 1, 1, 1, 0], Vals = [0x40000000, 0x40000001], LutEnd = 1\<rparr>
   \<and> LutBinarySearch U32 2
         \<lparr>Lut = [0, 1, 1, 1, 0], Vals = [0x40000000, 0x40000001], LutEnd = 1\<rparr> 0x40000000
       = Inr 1
   \<and> \<not> eq_dom U32 ([0x40000000, 0x40000001] ! 1) 0x40000000
   \<and> MyBinarySearch U32
         \<lparr>Lut = [0, 1, 1, 1, 0], Vals = [0x40000000, 0x40000001], LutEnd = 1\<rparr> 0x40000000
       = Inr 0
   \<and> StdBinarySearch U32
         \<lparr>Lut = [0, 1, 1, 1, 0], Vals = [0x40000000, 0x40000001], LutEnd = 1\<rparr> 0x40000000
       = 0"
proof (intro conjI)
  show "sorted_dom U32 [0x40000000, 0x40000001]"
    by (simp add: sorted_dom_def)
  show "SearchPod32 U32 2 [0x40000000, 0x40000001]
       = Inr \<lparr>Lut = [0, 1, 1, 1, 0], Vals = [0x40000000, 0x40000001], LutEnd = 1\<rparr>"
    by code_simp
qed (simp_all add: search_eval)

text \<open>
  C3: for every bucket index \<open>i \<le> LutEnd\<close>, \<open>Lut[i]\<close> should be the index of the first
  element whose bucket is at least \<open>i\<close>. On the same array \<open>LutEnd = 1\<close> and
  \<open>Lut[1] = 1\<close>, but the first element with a bucket of at least 1 is at index 0.
\<close>

theorem InitLut_entry_not_first_of_bucket:
  "sorted_dom U32 [0x40000000, 0x40000001]
   \<and> SearchPod32 U32 2 [0x40000000, 0x40000001]
       = Inr \<lparr>Lut = [0, 1, 1, 1, 0], Vals = [0x40000000, 0x40000001], LutEnd = 1\<rparr>
   \<and> [0, 1, 1, 1, 0 :: size_t] ! 1 = 1
   \<and> first_bucket_ge U32 2 [0x40000000, 0x40000001] 1 = 0"
proof (intro conjI)
  show "sorted_dom U32 [0x40000000, 0x40000001]"
    by (simp add: sorted_dom_def)
  show "SearchPod32 U32 2 [0x40000000, 0x40000001]
       = Inr \<lparr>Lut = [0, 1, 1, 1, 0], Vals = [0x40000000, 0x40000001], LutEnd = 1\<rparr>"
    by code_simp
  show "first_bucket_ge U32 2 [0x40000000, 0x40000001] 1 = 0"
    by (simp add: first_bucket_ge_def bucket_def)
qed simp

text \<open>
  C7: when a key occurs more than once, the three searches should return the lowest
  index. On the sorted array \<open>[0x40000000, 0x40000000]\<close> with \<open>LUT_BITS = 2\<close> the table
  is again \<open>[0, 1, 1, 1, 0]\<close>, and \<open>LutBinarySearch(0x40000000)\<close> returns 1 although
  the key is at index 0 too; \<open>MyBinarySearch\<close> and \<open>StdBinarySearch\<close> return 0.
\<close>

theorem LutBinarySearch_duplicate_not_lowest:
  "sorted_dom U32 [0x40000000, 0x40000000]
   \<and> SearchPod32 U32 2 [0x40000000, 0x40000000]
       = Inr \<lparr>Lut = [0, 1, 1, 1, 0], Vals = [0x40000000, 0x40000000], LutEnd = 1\<rparr>
   \<and> LutBinarySearch U32 2
         \<lparr>Lut = [0, 1, 1, 1, 0], Vals = [0x40000000, 0x40000000], LutEnd = 1\<rparr> 0x40000000
       = Inr 1
   \<and> eq_dom U32 ([0x40000000, 0x40000000] ! 0) 0x40000000
   \<and> MyBinarySearch U32
         \<lparr>Lut = [0, 1, 1, 1, 0], Vals = [0x40000000, 0x40000000], LutEnd = 1\<rparr> 0x40000000
       = Inr 0
   \<and> StdBinarySearch U32
         \<lparr>Lut = [0, 1, 1, 1, 0], Vals = [0x40000000, 0x40000000], LutEnd = 1\<rparr> 0x40000000
       = 0"
proof (intro conjI)
  show "sorted_dom U32 [0x40000000, 0x40000000]"
    by (simp add: sorted_dom_def)
  show "SearchPod32 U32 2 [0x40000000, 0x40000000]
       = Inr \<lparr>Lut = [0, 1, 1, 1, 0], Vals = [0x40000000, 0x40000000], LutEnd = 1\<rparr>"
    by code_simp
qed (simp_all add: search_eval)

subsection \<open>The two zeros of float\<close>

text \<open>
  \<open>MapValue\<close> sends \<open>-0.0f\<close> to \<open>0x7FFFFFFF\<close> and \<open>+0.0f\<close> to \<open>0x80000000\<close>, in
  different buckets for every \<open>LUT_BITS\<close>, while \<open>==\<close> holds between them. On the
  sorted array \<open>[-0.0f, +0.0f]\<close> with \<open>LUT_BITS = 1\<close> and the key \<open>+0.0f\<close>, which is
  equal to both elements, \<open>LutBinarySearch\<close> returns 1 and the other two searches
  return 0. Here the first element is in bucket 0.
\<close>

lemma LutBinarySearch_signed_zero:
  "sorted_dom F32 [0x80000000, 0]
   \<and> SearchPod32 F32 1 [0x80000000, 0]
       = Inr \<lparr>Lut = [0, 1, 0], Vals = [0x80000000, 0], LutEnd = 1\<rparr>
   \<and> LutBinarySearch F32 1 \<lparr>Lut = [0, 1, 0], Vals = [0x80000000, 0], LutEnd = 1\<rparr> 0 = Inr 1
   \<and> MyBinarySearch F32 \<lparr>Lut = [0, 1, 0], Vals = [0x80000000, 0], LutEnd = 1\<rparr> 0 = Inr 0
   \<and> StdBinarySearch F32 \<lparr>Lut = [0, 1, 0], Vals = [0x80000000, 0], LutEnd = 1\<rparr> 0 = 0
   \<and> eq_dom F32 ([0x80000000, 0] ! 0) 0 \<and> eq_dom F32 ([0x80000000, 0] ! 1) 0"
proof (intro conjI)
  show "sorted_dom F32 [0x80000000, 0]"
    by (simp add: sorted_dom_def float_lt_def float_isnan_def float_sign_def)
  show "SearchPod32 F32 1 [0x80000000, 0]
       = Inr \<lparr>Lut = [0, 1, 0], Vals = [0x80000000, 0], LutEnd = 1\<rparr>"
    by code_simp
qed (simp_all add: search_eval float_lt_def float_eq_def float_isnan_def float_sign_def)

subsection \<open>BinarySearch returns before its check of the key\<close>

text \<open>
  C2: for a key that does not occur in the sorted array, the three searches should
  return -1. \<open>BinarySearch\<close> returns \<open>__first\<close> at the end of its loop, and the
  comparison of \<open>Vals[left]\<close> with the key after it is never reached. On the array
  \<open>[1, 3]\<close> with \<open>LUT_BITS = 1\<close> and the absent key 2, \<open>MyBinarySearch\<close> and
  \<open>LutBinarySearch\<close> return 1; \<open>StdBinarySearch\<close> returns -1.
\<close>

theorem BinarySearch_absent_key_no_sentinel:
  "sorted_dom U32 [1, 3]
   \<and> SearchPod32 U32 1 [1, 3] = Inr \<lparr>Lut = [0, 0, 0], Vals = [1, 3], LutEnd = 0\<rparr>
   \<and> MyBinarySearch U32 \<lparr>Lut = [0, 0, 0], Vals = [1, 3], LutEnd = 0\<rparr> 2 = Inr 1
   \<and> LutBinarySearch U32 1 \<lparr>Lut = [0, 0, 0], Vals = [1, 3], LutEnd = 0\<rparr> 2 = Inr 1
   \<and> StdBinarySearch U32 \<lparr>Lut = [0, 0, 0], Vals = [1, 3], LutEnd = 0\<rparr> 2 = - 1"
proof (intro conjI)
  show "sorted_dom U32 [1, 3]"
    by (simp add: sorted_dom_def)
  show "SearchPod32 U32 1 [1, 3] = Inr \<lparr>Lut = [0, 0, 0], Vals = [1, 3], LutEnd = 0\<rparr>"
    by code_simp
qed (simp_all add: search_eval)

subsection \<open>A negative difference becomes a huge length\<close>

text \<open>
  C4: on the empty array the constructor succeeds and the three searches should return
  -1. The constructor does succeed and \<open>StdBinarySearch\<close> returns -1, but
  \<open>MyBinarySearch\<close> calls \<open>BinarySearch(0, -1, key)\<close>, whose
  \<open>__len = right - left\<close> is \<open>2 ^ 64 - 1\<close> as a \<open>size_t\<close>: the first iteration reads
  \<open>Vals[2 ^ 63 - 1]\<close>, outside the empty vector. \<open>LutBinarySearch\<close> makes the same
  call.
\<close>

theorem empty_array_search_out_of_bounds:
  "SearchPod32 U32 1 [] = Inr \<lparr>Lut = [0, 0, 0], Vals = [], LutEnd = 0\<rparr>
   \<and> StdBinarySearch U32 \<lparr>Lut = [0, 0, 0], Vals = [], LutEnd = 0\<rparr> 0 = - 1
   \<and> MyBinarySearch U32 \<lparr>Lut = [0, 0, 0], Vals = [], LutEnd = 0\<rparr> 0 = Inl OutOfBounds
   \<and> LutBinarySearch U32 1 \<lparr>Lut = [0, 0, 0], Vals = [], LutEnd = 0\<rparr> 0 = Inl OutOfBounds"
proof (intro conjI)
  show "SearchPod32 U32 1 [] = Inr \<lparr>Lut = [0, 0, 0], Vals = [], LutEnd = 0\<rparr>"
    by code_simp
  show "StdBinarySearch U32 \<lparr>Lut = [0, 0, 0], Vals = [], LutEnd = 0\<rparr> 0 = - 1"
    by (simp add: search_eval)
  show "MyBinarySearch U32 \<lparr>Lut = [0, 0, 0], Vals = [], LutEnd = 0\<rparr> 0 = Inl OutOfBounds"
    by (simp add: MyBinarySearch_def BinarySearch_def size_vec_def Let_def)
       (simp add: minus_one_size_t BinarySearch_loop.simps at_vec_def Let_def)
  show "LutBinarySearch U32 1 \<lparr>Lut = [0, 0, 0], Vals = [], LutEnd = 0\<rparr> 0 = Inl OutOfBounds"
    by (simp add: LutBinarySearch_def LutBinarySearch_end_def BinarySearch_def size_vec_def
          at_vec_def Let_def)
       (simp add: minus_one_size_t BinarySearch_loop.simps at_vec_def Let_def)
qed

text \<open>
  C9: on a non-empty array every call of \<open>MyBinarySearch\<close> and \<open>LutBinarySearch\<close>
  should stay inside the array and return an index in \<open>[0, N - 1]\<close>. On the sorted array
  \<open>[0, 0x80000000, 0xC0000000]\<close> with \<open>LUT_BITS = 2\<close> the table is \<open>[0, 1, 1, 2, 0]\<close>
  and \<open>LutEnd = 3\<close>. The key \<open>0x40000000\<close> is in bucket 1, which holds no element:
  \<open>start = Lut[1] = 1\<close> and \<open>end = Lut[2] - 1 = 0\<close>, so \<open>BinarySearch(1, 0, key)\<close>
  starts with \<open>__len = 2 ^ 64 - 1\<close> and reads \<open>Vals[2 ^ 63]\<close>. \<open>MyBinarySearch\<close> stays
  inside the array and returns 1.
\<close>

theorem LutBinarySearch_empty_bucket_out_of_bounds:
  "sorted_dom U32 [0, 0x80000000, 0xC0000000]
   \<and> SearchPod32 U32 2 [0, 0x80000000, 0xC0000000]
       = Inr \<lparr>Lut = [0, 1, 1, 2, 0], Vals = [0, 0x80000000, 0xC0000000], LutEnd = 3\<rparr>
   \<and> LutBinarySearch U32 2
         \<lparr>Lut = [0, 1, 1, 2, 0], Vals = [0, 0x80000000, 0xC0000000], LutEnd = 3\<rparr> 0x40000000
       = Inl OutOfBounds
   \<and> MyBinarySearch U32
         \<lparr>Lut = [0, 1, 1, 2, 0], Vals = [0, 0x80000000, 0xC0000000], LutEnd = 3\<rparr> 0x40000000
       = Inr 1"
proof (intro conjI)
  show "sorted_dom U32 [0, 0x80000000, 0xC0000000]"
    by (simp add: sorted_dom_def)
  show "SearchPod32 U32 2 [0, 0x80000000, 0xC0000000]
       = Inr \<lparr>Lut = [0, 1, 1, 2, 0], Vals = [0, 0x80000000, 0xC0000000], LutEnd = 3\<rparr>"
    by code_simp
  show "LutBinarySearch U32 2
         \<lparr>Lut = [0, 1, 1, 2, 0], Vals = [0, 0x80000000, 0xC0000000], LutEnd = 3\<rparr> 0x40000000
       = Inl OutOfBounds"
    by (simp add: LutBinarySearch_def LutBinarySearch_end_def BinarySearch_def size_vec_def
          at_vec_def Let_def)
       (simp add: minus_one_size_t BinarySearch_loop.simps at_vec_def Let_def)
  show "MyBinarySearch U32
         \<lparr>Lut = [0, 1, 1, 2, 0], Vals = [0, 0x80000000, 0xC0000000], LutEnd = 3\<rparr> 0x40000000
       = Inr 1"
    by (simp add: search_eval)
qed

section \<open>The table built by InitLut\<close>

subsection \<open>The two filling loops\<close>

lemma bucket_less:
  assumes "0 < B" "B \<le> 32"
  shows "unat (drop_bit (32 - B) (w::32 word)) < 2 ^ B"
proof -
  have "unat w < 2 ^ 32" using unsigned_less[of w] by simp
  also have "(2::nat) ^ 32 = 2 ^ (32 - B) * 2 ^ B"
    using assms by (simp add: power_add[symmetric])
  finally have "unat w div 2 ^ (32 - B) < 2 ^ B"
    by (simp add: less_mult_imp_div_less mult.commute)
  moreover have "unat (drop_bit (32 - B) w) = drop_bit (32 - B) (unat w)"
    by (rule unat_drop_bit_eq)
  moreover have "drop_bit (32 - B) (unat w) = unat w div 2 ^ (32 - B)"
    by (rule drop_bit_eq_div)
  ultimately show ?thesis by simp
qed

lemma InitLut_fill_length: "length (InitLut_fill lut j nt l) = length lut"
  by (induction lut j nt l rule: InitLut_fill.induct)
     (subst InitLut_fill.simps, simp)

lemma InitLut_fill_nth:
  "k < length lut \<Longrightarrow>
   InitLut_fill lut j nt l ! k = (if unat j \<le> k \<and> k \<le> unat nt then l else lut ! k)"
proof (induction lut j nt l rule: InitLut_fill.induct)
  case (1 lut j nextThresh last')
  show ?case
  proof (cases "j \<le> ucast nextThresh")
    case True
    then have le: "unat j \<le> unat nextThresh"
      by (simp add: word_le_nat_alt unat_ucast_32_64)
    have suc: "unat (j + 1) = unat j + 1" by (rule unat_succ_le_ucast[OF True])
    have "InitLut_fill lut j nextThresh last' ! k
          = InitLut_fill (lut[unat j := last']) (j + 1) nextThresh last' ! k"
      using True by (subst InitLut_fill.simps) simp
    also have "\<dots> = (if unat (j + 1) \<le> k \<and> k \<le> unat nextThresh then last'
                      else lut[unat j := last'] ! k)"
      using 1 True by simp
    also have "\<dots> = (if unat j \<le> k \<and> k \<le> unat nextThresh then last' else lut ! k)"
      using le suc 1(2) by (auto simp: nth_list_update)
    finally show ?thesis .
  next
    case False
    then have "unat nextThresh < unat j"
      by (simp add: word_le_nat_alt unat_ucast_32_64)
    then show ?thesis using False by (subst InitLut_fill.simps) auto
  qed
qed

lemma InitLut_rest_length: "length (InitLut_rest lut i l) = length lut"
  by (induction lut i l rule: InitLut_rest.induct)
     (subst InitLut_rest.simps, simp add: size_vec_def)

lemma InitLut_rest_nth:
  "k < length lut \<Longrightarrow>
   InitLut_rest lut i l ! k
     = (if unat i \<le> k \<and> k < unat (size_vec lut - 1) then l else lut ! k)"
proof (induction lut i l rule: InitLut_rest.induct)
  case (1 lut i last')
  show ?case
  proof (cases "i < size_vec lut - 1")
    case True
    then have lt: "unat i < unat (size_vec lut - 1)"
      by (simp add: word_less_nat_alt)
    have suc: "unat (i + 1) = unat i + 1" by (rule unat_succ_less[OF True])
    have sz: "size_vec (lut[unat i := last']) = size_vec lut" by (simp add: size_vec_def)
    have "InitLut_rest lut i last' ! k = InitLut_rest (lut[unat i := last']) (i + 1) last' ! k"
      using True by (subst InitLut_rest.simps) simp
    also have "\<dots> = (if unat (i + 1) \<le> k \<and> k < unat (size_vec lut - 1) then last'
                      else lut[unat i := last'] ! k)"
      using 1 True sz by simp
    also have "\<dots> = (if unat i \<le> k \<and> k < unat (size_vec lut - 1) then last' else lut ! k)"
      using lt suc 1(2) by (auto simp: nth_list_update)
    finally show ?thesis .
  next
    case False
    then have "unat (size_vec lut - 1) \<le> unat i"
      by (simp add: word_less_nat_alt)
    then show ?thesis using False by (subst InitLut_rest.simps) auto
  qed
qed

subsection \<open>The main loop keeps its invariant\<close>

lemma unat_word_of_nat_64: "n < 2 ^ 64 \<Longrightarrow> unat (word_of_nat n :: size_t) = n"
  by (simp add: unat_of_nat)

lemma InitLut_inv_same_bucket:
  assumes inv: "InitLut_inv B N i lut thresh last'"
    and B: "0 < B" "B \<le> 32"
    and nt: "\<not> thresh < ucast (nt :: 32 word)" "nt = drop_bit (32 - B) x"
  shows "InitLut_inv B N (i + 1) (lut[unat thresh := last']) (ucast nt) last'"
proof -
  let ?lut1 = "lut[unat thresh := last']"
  from inv have len: "length lut = 2 ^ B + 1" and th: "unat thresh < 2 ^ B"
    and li: "unat last' \<le> i" and lN: "unat last' \<le> N - 1"
    and le: "\<And>j. j < length lut \<Longrightarrow> lut ! j \<le> last'"
    and mono: "\<And>j k. j \<le> k \<Longrightarrow> k \<le> unat thresh \<Longrightarrow> lut ! j \<le> lut ! k"
    by (auto simp: InitLut_inv_def)
  have nth: "unat (ucast nt :: size_t) = unat nt" by (rule unat_ucast_32_64)
  have ntB: "unat nt < 2 ^ B" unfolding nt(2) by (rule bucket_less[OF B])
  have down: "unat nt \<le> unat thresh" using nt(1) by (simp add: word_less_nat_alt nth)
  have thl: "unat thresh < length lut" using th len by simp
  have le1: "?lut1 ! j \<le> last'" if "j < length lut" for j
    using that le[of j] thl by (simp add: nth_list_update)
  have mono1: "?lut1 ! j \<le> ?lut1 ! k" if "j \<le> k" "k \<le> unat thresh" for j k
  proof (cases "k = unat thresh")
    case True
    have "j < length lut" using that th len by simp
    from le1[OF this] show ?thesis using True th len by simp
  next
    case False
    with that have "k < unat thresh" "j < unat thresh" by simp_all
    then show ?thesis using mono[OF that] by simp
  qed
  show ?thesis
    unfolding InitLut_inv_def
    using len ntB li lN le1 mono1 down by (simp add: nth)
qed

lemma InitLut_inv_next_bucket:
  assumes inv: "InitLut_inv B N i lut thresh last'"
    and B: "0 < B" "B \<le> 32"
    and nt: "thresh < ucast (nt :: 32 word)" "nt = drop_bit (32 - B) x"
    and i: "i + 1 < N"
    and l1: "unat l1 = i + 1"
  shows "InitLut_inv B N (i + 1)
           (InitLut_fill (lut[unat thresh := last']) (thresh + 1) nt l1) (ucast nt) l1"
proof -
  let ?lut1 = "lut[unat thresh := last']"
  let ?lut2 = "InitLut_fill ?lut1 (thresh + 1) nt l1"
  from inv have len: "length lut = 2 ^ B + 1" and th: "unat thresh < 2 ^ B"
    and li: "unat last' \<le> i" and lN: "unat last' \<le> N - 1"
    and le: "\<And>j. j < length lut \<Longrightarrow> lut ! j \<le> last'"
    and mono: "\<And>j k. j \<le> k \<Longrightarrow> k \<le> unat thresh \<Longrightarrow> lut ! j \<le> lut ! k"
    by (auto simp: InitLut_inv_def)
  have nth: "unat (ucast nt :: size_t) = unat nt" by (rule unat_ucast_32_64)
  have ntB: "unat nt < 2 ^ B" unfolding nt(2) by (rule bucket_less[OF B])
  have up: "unat thresh < unat nt" using nt(1) by (simp add: word_less_nat_alt nth)
  have suc: "unat (thresh + 1) = unat thresh + 1" by (rule unat_succ_less[OF nt(1)])
  have ll: "last' \<le> l1" using li l1 by (simp add: word_le_nat_alt)
  have thl: "unat thresh < length lut" using th len by simp
  have le1: "?lut1 ! j \<le> last'" if "j < length lut" for j
    using that le[of j] thl by (simp add: nth_list_update)
  have mono1: "?lut1 ! j \<le> ?lut1 ! k" if "j \<le> k" "k \<le> unat thresh" for j k
  proof (cases "k = unat thresh")
    case True
    have "j < length lut" using that th len by simp
    from le1[OF this] show ?thesis using True th len by simp
  next
    case False
    with that have "k < unat thresh" "j < unat thresh" by simp_all
    then show ?thesis using mono[OF that] by simp
  qed
  have nth2: "?lut2 ! k = (if unat thresh + 1 \<le> k \<and> k \<le> unat nt then l1 else ?lut1 ! k)"
    if "k < length lut" for k
    using that by (simp add: InitLut_fill_nth suc)
  have le2: "?lut2 ! j \<le> l1" if "j < length lut" for j
    using order_trans[OF le1[OF that] ll] by (simp add: nth2[OF that])
  have mono2: "?lut2 ! j \<le> ?lut2 ! k" if "j \<le> k" "k \<le> unat nt" for j k
  proof -
    have kl: "k < length lut" and jl: "j < length lut" using that ntB len by simp_all
    show ?thesis
    proof (cases "unat thresh + 1 \<le> k")
      case True
      then have "?lut2 ! k = l1" using that by (simp add: nth2[OF kl])
      then show ?thesis using le2[OF jl] by simp
    next
      case False
      then have "k \<le> unat thresh" "j \<le> unat thresh" using that by simp_all
      then show ?thesis using mono1[OF that(1)] by (simp add: nth2[OF kl] nth2[OF jl])
    qed
  qed
  have "unat l1 \<le> N - 1" using l1 i by simp
  then show ?thesis
    unfolding InitLut_inv_def
    using len ntB l1 le2 mono2 by (simp add: nth InitLut_fill_length)
qed

lemma InitLut_loop_inv:
  assumes "InitLut_inv B (length vals) i lut thresh last'"
    and "0 < B" "B \<le> 32" "length vals < 2 ^ 64"
  shows "case InitLut_loop d B vals i lut thresh last' of
           (lut', thresh', last'') \<Rightarrow> \<exists>i'. InitLut_inv B (length vals) i' lut' thresh' last''"
  using assms
proof (induction d B vals i lut thresh last' rule: InitLut_loop.induct)
  case (1 d B vals i lut thresh last')
  show ?case
  proof (cases "int i < int (length vals) - 1")
    case False
    then show ?thesis using 1(3) by (subst InitLut_loop.simps) auto
  next
    case True
    then have i: "i + 1 < length vals" by simp
    let ?nt = "drop_bit (32 - B) (MapValue d (vals ! (i + 1)))"
    show ?thesis
    proof (cases "thresh < ucast ?nt")
      case up: True
      have "InitLut_inv B (length vals) (i + 1)
             (InitLut_fill (lut[unat thresh := last']) (thresh + 1) ?nt (word_of_nat (i + 1)))
             (ucast ?nt) (word_of_nat (i + 1))"
      proof (rule InitLut_inv_next_bucket[OF 1(3) 1(4) 1(5) up refl i])
        show "unat (word_of_nat (i + 1) :: size_t) = i + 1"
          using i 1(6) by (intro unat_word_of_nat_64) simp
      qed
      from 1(1)[OF True refl refl refl up refl this 1(4) 1(5) 1(6)]
      show ?thesis using True up by (subst InitLut_loop.simps) (simp add: Let_def)
    next
      case down: False
      have "InitLut_inv B (length vals) (i + 1) (lut[unat thresh := last']) (ucast ?nt) last'"
        by (rule InitLut_inv_same_bucket[OF 1(3) 1(4) 1(5) down refl])
      from 1(2)[OF True refl refl refl down this 1(4) 1(5) 1(6)]
      show ?thesis using True down by (subst InitLut_loop.simps) (simp add: Let_def)
    qed
  qed
qed

subsection \<open>The size of the table and the constructor\<close>

lemma lut_size_small:
  assumes "B \<le> 30"
  shows "lut_size B = word_of_nat (2 ^ B + 1)"
proof -
  have "(2::int) ^ B \<le> 2 ^ 30" using assms by (intro power_increasing) simp_all
  then have lt: "int (2 ^ B + 1) < 2 ^ 31" by simp
  have "(push_bit B 1 + 1 :: 32 word) = word_of_nat (2 ^ B + 1)"
    by (simp add: push_bit_eq_mult)
  then have "lut_size B = scast (word_of_nat (2 ^ B + 1) :: 32 word)"
    by (simp only: lut_size_def)
  also have "\<dots> = word_of_int (signed_take_bit 31 (int (2 ^ B + 1)))"
    by (simp only: signed_of_nat) simp
  also have "signed_take_bit 31 (int (2 ^ B + 1)) = int (2 ^ B + 1)"
    using lt by (intro signed_take_bit_int_eq_self) simp_all
  finally show ?thesis by simp
qed

lemma unat_lut_size:
  assumes "B \<le> 30"
  shows "unat (lut_size B) = 2 ^ B + 1"
proof -
  have "(2::nat) ^ B \<le> 2 ^ 30" using assms by (intro power_increasing) simp_all
  then have "(2::nat) ^ B + 1 < 2 ^ 64" by simp
  then show ?thesis unfolding lut_size_small[OF assms] by (rule unat_word_of_nat_64)
qed

lemma lut_size_fits:
  assumes "B \<le> 30"
  shows "\<not> max_size < lut_size B"
proof -
  have "(2::nat) ^ B \<le> 2 ^ 30" using assms by (intro power_increasing) simp_all
  then have "unat (lut_size B) \<le> unat max_size"
    unfolding unat_lut_size[OF assms] by (simp add: max_size_def)
  then show ?thesis by (simp add: word_less_nat_alt)
qed

lemma lut_size_31: "max_size < lut_size 31"
  by (simp add: lut_size_def max_size_def)

lemma SearchPod32_Inr:
  assumes "SearchPod32 d B vals = Inr s"
  shows "0 < B \<and> B \<le> 30 \<and>
         (case InitLut_loop d B vals 0 (replicate (2 ^ B + 1) 0) 0 0 of
            (lut, thresh, last') \<Rightarrow>
               s = \<lparr>Lut = InitLut_rest lut thresh last', Vals = vals, LutEnd = thresh\<rparr>)"
proof -
  from assms have B: "0 < B" "B < 32" and init: "InitLut d B vals = Inr s"
    by (auto simp: SearchPod32_def split: if_splits)
  have "B \<noteq> 31" using init lut_size_31 by (auto simp: InitLut_def)
  with B have B30: "B \<le> 30" by simp
  show ?thesis using init B lut_size_fits[OF B30] B30
    by (auto simp: InitLut_def unat_lut_size[OF B30] split: prod.splits)
qed

lemma InitLut_inv_init: "InitLut_inv B N 0 (replicate (2 ^ B + 1) 0) 0 0"
proof -
  define n :: nat where "n = 2 ^ B + 1"
  have "InitLut_inv B N 0 (replicate n 0) 0 0"
    unfolding InitLut_inv_def by (simp add: n_def[symmetric]) (simp add: n_def)
  then show ?thesis by (simp only: n_def)
qed

lemma unat_size_vec_minus_1:
  assumes "length lut = 2 ^ B + 1" "B \<le> 30"
  shows "unat (size_vec lut - 1) = 2 ^ B"
proof -
  have "(2::nat) ^ B \<le> 2 ^ 30" using assms by (intro power_increasing) simp_all
  then have "(2::nat) ^ B < 2 ^ 64" by simp
  moreover have "size_vec lut - 1 = word_of_nat (2 ^ B)"
    using assms by (simp add: size_vec_def)
  ultimately show ?thesis by (simp only: unat_word_of_nat_64)
qed

lemma SearchPod32_invariants:
  assumes ctor: "SearchPod32 d B vals = Inr s" and N: "length vals < 2 ^ 64"
  shows "0 < B" "B \<le> 30" "Vals s = vals" "length (Lut s) = 2 ^ B + 1"
    "unat (LutEnd s) < 2 ^ B"
    "\<And>j. j < 2 ^ B + 1 \<Longrightarrow> unat (Lut s ! j) \<le> length vals - 1"
    "\<And>j k. j \<le> k \<Longrightarrow> k < 2 ^ B \<Longrightarrow> Lut s ! j \<le> Lut s ! k"
proof -
  from SearchPod32_Inr[OF ctor] have B: "0 < B" "B \<le> 30" by simp_all
  obtain lut thresh last' where
    loop: "InitLut_loop d B vals 0 (replicate (2 ^ B + 1) 0) 0 0 = (lut, thresh, last')"
    by (cases "InitLut_loop d B vals 0 (replicate (2 ^ B + 1) 0) 0 0") auto
  with SearchPod32_Inr[OF ctor]
  have s: "s = \<lparr>Lut = InitLut_rest lut thresh last', Vals = vals, LutEnd = thresh\<rparr>"
    by simp
  have "B \<le> 32" using B by simp
  from InitLut_loop_inv[OF InitLut_inv_init B(1) this N, of d] loop
  obtain i where inv: "InitLut_inv B (length vals) i lut thresh last'" by auto
  then have len: "length lut = 2 ^ B + 1" and th: "unat thresh < 2 ^ B"
    and lN: "unat last' \<le> length vals - 1"
    and le: "\<And>j. j < length lut \<Longrightarrow> lut ! j \<le> last'"
    and mono: "\<And>j k. j \<le> k \<Longrightarrow> k \<le> unat thresh \<Longrightarrow> lut ! j \<le> lut ! k"
    by (auto simp: InitLut_inv_def)
  have sz: "unat (size_vec lut - 1) = 2 ^ B" by (rule unat_size_vec_minus_1[OF len B(2)])
  have nth: "Lut s ! k = (if unat thresh \<le> k \<and> k < 2 ^ B then last' else lut ! k)"
    if "k < 2 ^ B + 1" for k
    using that len by (simp add: s InitLut_rest_nth sz)
  have le': "Lut s ! j \<le> last'" if "j < 2 ^ B + 1" for j
    using le[of j] that len by (simp add: nth[OF that])
  show "0 < B" "B \<le> 30" by fact+
  show "Vals s = vals" by (simp add: s)
  show "length (Lut s) = 2 ^ B + 1" using len by (simp add: s InitLut_rest_length)
  show "unat (LutEnd s) < 2 ^ B" using th by (simp add: s)
  show "unat (Lut s ! j) \<le> length vals - 1" if "j < 2 ^ B + 1" for j
    using le'[OF that] lN by (simp add: word_le_nat_alt)
  show "Lut s ! j \<le> Lut s ! k" if "j \<le> k" "k < 2 ^ B" for j k
  proof (cases "unat thresh \<le> k")
    case True
    then have "Lut s ! k = last'" using that by (simp add: nth)
    moreover have "Lut s ! j \<le> last'" using that by (intro le') simp
    ultimately show ?thesis by simp
  next
    case False
    then have "k \<le> unat thresh" "\<not> unat thresh \<le> j" "\<not> unat thresh \<le> k"
      using that by simp_all
    then show ?thesis using mono[OF that(1)] that by (simp add: nth)
  qed
qed

lemma SearchPod32_31: "SearchPod32 d 31 vals = Inl LengthError"
  using lut_size_31 by (simp add: SearchPod32_def InitLut_def)

lemma InitLut_loop_last_entry:
  assumes "lut ! (2 ^ B) = 0" "length lut = 2 ^ B + 1" "unat thresh < 2 ^ B" "0 < B" "B \<le> 32"
  shows "fst (InitLut_loop d B vals i lut thresh last') ! (2 ^ B) = 0
         \<and> length (fst (InitLut_loop d B vals i lut thresh last')) = 2 ^ B + 1"
  using assms
proof (induction d B vals i lut thresh last' rule: InitLut_loop.induct)
  case (1 d B vals i lut thresh last')
  show ?case
  proof (cases "int i < int (length vals) - 1")
    case False
    then show ?thesis using 1(3) 1(4) by (subst (1 2) InitLut_loop.simps) simp
  next
    case True
    let ?nt = "drop_bit (32 - B) (MapValue d (vals ! (i + 1)))"
    let ?lut1 = "lut[unat thresh := last']"
    have ntB: "unat ?nt < 2 ^ B" by (rule bucket_less[OF 1(6) 1(7)])
    have nth: "unat (ucast ?nt :: size_t) < 2 ^ B" using ntB by (simp only: unat_ucast_32_64)
    have l1: "?lut1 ! (2 ^ B) = 0" using 1(3) 1(5) by simp
    have len1: "length ?lut1 = 2 ^ B + 1" using 1(4) by simp
    show ?thesis
    proof (cases "thresh < ucast ?nt")
      case up: True
      let ?lut2 = "InitLut_fill ?lut1 (thresh + 1) ?nt (word_of_nat (i + 1))"
      have "?lut2 ! (2 ^ B) = 0" using l1 len1 ntB by (simp add: InitLut_fill_nth)
      moreover have "length ?lut2 = 2 ^ B + 1" using len1 by (simp add: InitLut_fill_length)
      ultimately show ?thesis
        using 1(1)[OF True refl refl refl up refl _ _ nth 1(6) 1(7)] True up
        by (subst (1 2) InitLut_loop.simps) (simp add: Let_def)
    next
      case down: False
      show ?thesis
        using 1(2)[OF True refl refl refl down l1 len1 nth 1(6) 1(7)] True down
        by (subst (1 2) InitLut_loop.simps) (simp add: Let_def)
    qed
  qed
qed

lemma Lut_extra_entry_zero:
  assumes "SearchPod32 d B vals = Inr s"
  shows "Lut s ! (2 ^ B) = 0"
proof -
  from SearchPod32_Inr[OF assms] have B: "0 < B" "B \<le> 30" by simp_all
  then have B32: "B \<le> 32" by simp
  obtain lut thresh last' where
    loop: "InitLut_loop d B vals 0 (replicate (2 ^ B + 1) 0) 0 0 = (lut, thresh, last')"
    by (cases "InitLut_loop d B vals 0 (replicate (2 ^ B + 1) 0) 0 0") auto
  with SearchPod32_Inr[OF assms]
  have s: "s = \<lparr>Lut = InitLut_rest lut thresh last', Vals = vals, LutEnd = thresh\<rparr>"
    by simp
  define n :: nat where "n = 2 ^ B + 1"
  have "replicate n (0::size_t) ! (2 ^ B) = 0" by (simp add: n_def)
  then have z: "replicate (2 ^ B + 1) (0::size_t) ! (2 ^ B) = 0" by (simp only: n_def)
  have "length (replicate n (0::size_t)) = n" by simp
  then have l: "length (replicate (2 ^ B + 1) (0::size_t)) = 2 ^ B + 1" by (simp only: n_def)
  have "unat (0::size_t) < 2 ^ B" by simp
  from InitLut_loop_last_entry[OF z l this B(1) B32, of d vals 0 0] loop
  have lz: "lut ! (2 ^ B) = 0" and len: "length lut = 2 ^ B + 1" by simp_all
  have sz: "unat (size_vec lut - 1) = 2 ^ B" by (rule unat_size_vec_minus_1[OF len B(2)])
  show ?thesis using lz len by (simp add: s InitLut_rest_nth sz)
qed

text \<open>
  C8: for every constructed SearchPod32 (any of the three domains, any \<open>LUT_BITS\<close> the
  constructor accepts, any backing array, sorted or not), the table values are
  non-decreasing along increasing bucket index: \<open>Lut[i] \<le> Lut[j]\<close> for bucket indices
  \<open>i \<le> j < 2 ^ LUT_BITS\<close>. Bucket indices are the values of
  \<open>mapped >> (32 - LUT_BITS)\<close>; the extra entry \<open>Lut[2 ^ LUT_BITS]\<close> is no bucket, and
  the closing loop of \<open>InitLut\<close> leaves it at 0.
\<close>

theorem Lut_nondecreasing:
  assumes "SearchPod32 d B vals = Inr s" and "length vals < 2 ^ 64"
    and "i \<le> j" and "j < 2 ^ B"
  shows "Lut s ! i \<le> Lut s ! j"
  using SearchPod32_invariants(7)[OF assms] .

theorem Lut_nondecreasing_witness:
  "SearchPod32 U32 2 [0, 0x80000000, 0xC0000000]
     = Inr \<lparr>Lut = [0, 1, 1, 2, 0], Vals = [0, 0x80000000, 0xC0000000], LutEnd = 3\<rparr>
   \<and> length [0, 0x80000000, 0xC0000000 :: val] < 2 ^ 64
   \<and> (1::nat) \<le> 3 \<and> (3::nat) < 2 ^ 2
   \<and> Lut \<lparr>Lut = [0, 1, 1, 2, 0], Vals = [0, 0x80000000, 0xC0000000], LutEnd = 3\<rparr> ! 1
       \<le> Lut \<lparr>Lut = [0, 1, 1, 2, 0], Vals = [0, 0x80000000, 0xC0000000], LutEnd = 3\<rparr> ! 3"
proof -
  have h1: "SearchPod32 U32 2 [0, 0x80000000, 0xC0000000]
     = Inr \<lparr>Lut = [0, 1, 1, 2, 0], Vals = [0, 0x80000000, 0xC0000000], LutEnd = 3\<rparr>"
    by code_simp
  have h2: "length [0, 0x80000000, 0xC0000000 :: val] < 2 ^ 64" by simp
  have h3: "(1::nat) \<le> 3" by simp
  have h4: "(3::nat) < 2 ^ 2" by simp
  show ?thesis
    using h1 h2 h3 h4 Lut_nondecreasing [OF h1 h2 h3 h4] by (intro conjI)
qed

subsection \<open>Table entries and table accesses stay in range\<close>

lemma bucket_facts:
  assumes "0 < B" "B \<le> 30"
  shows "unat (ucast (bucket d B key) :: size_t) = unat (bucket d B key)"
    "unat (ucast (bucket d B key + 1) :: size_t) = unat (bucket d B key) + 1"
    "unat (bucket d B key) < 2 ^ B"
proof -
  have B32: "B \<le> 32" using assms by simp
  show b: "unat (bucket d B key) < 2 ^ B"
    unfolding bucket_def by (rule bucket_less[OF assms(1) B32])
  have "(2::nat) ^ B \<le> 2 ^ 30" using assms by (intro power_increasing) simp_all
  with b have "unat (bucket d B key) + 1 < 2 ^ 32" by simp
  then have "unat (bucket d B key + 1) = unat (bucket d B key) + 1"
    by (simp add: unat_add_lem[THEN iffD1])
  then show "unat (ucast (bucket d B key + 1) :: size_t) = unat (bucket d B key) + 1"
    by (simp only: unat_ucast_32_64)
  show "unat (ucast (bucket d B key) :: size_t) = unat (bucket d B key)"
    by (rule unat_ucast_32_64)
qed

text \<open>
  C10: for every constructed SearchPod32 over an array of length \<open>N \<ge> 1\<close>, the table
  has \<open>2 ^ LUT_BITS + 1\<close> entries, every entry is in \<open>[0, N - 1]\<close>, \<open>LutEnd\<close> is at
  most \<open>2 ^ LUT_BITS - 1\<close>, and the reads \<open>Lut[lutIdx]\<close> and \<open>Lut[lutIdx + 1]\<close> of
  \<open>LutBinarySearch\<close> are inside the table for every key.
\<close>

theorem Lut_entries_and_accesses_in_range:
  assumes "SearchPod32 d B vals = Inr s" and "1 \<le> length vals" and "length vals < 2 ^ 64"
  shows "length (Lut s) = 2 ^ B + 1
         \<and> (\<forall>j < length (Lut s). unat (Lut s ! j) \<le> length vals - 1)
         \<and> unat (LutEnd s) \<le> 2 ^ B - 1
         \<and> at_vec (Lut s) (ucast (bucket d B key)) = Inr (Lut s ! unat (bucket d B key))
         \<and> at_vec (Lut s) (ucast (bucket d B key + 1)) = Inr (Lut s ! (unat (bucket d B key) + 1))"
proof -
  note inv = SearchPod32_invariants[OF assms(1) assms(3)]
  note bf = bucket_facts[OF inv(1) inv(2), of d key]
  have "unat (LutEnd s) \<le> 2 ^ B - 1" using inv(5) by simp
  moreover have "\<forall>j < length (Lut s). unat (Lut s ! j) \<le> length vals - 1"
    using inv(6) by (simp add: inv(4))
  ultimately show ?thesis
    using bf(3) by (simp add: at_vec_def bf(1) bf(2) inv(4))
qed

theorem Lut_entries_and_accesses_in_range_witness:
  "SearchPod32 U32 2 [0, 0x80000000, 0xC0000000]
     = Inr \<lparr>Lut = [0, 1, 1, 2, 0], Vals = [0, 0x80000000, 0xC0000000], LutEnd = 3\<rparr>
   \<and> 1 \<le> length [0, 0x80000000, 0xC0000000 :: val]
   \<and> length [0, 0x80000000, 0xC0000000 :: val] < 2 ^ 64
   \<and> length [0, 1, 1, 2, 0 :: size_t] = 2 ^ 2 + 1
   \<and> unat ([0, 1, 1, 2, 0 :: size_t] ! 3) \<le> length [0, 0x80000000, 0xC0000000 :: val] - 1
   \<and> unat (3 :: size_t) \<le> 2 ^ 2 - 1
   \<and> at_vec [0, 1, 1, 2, 0 :: size_t] (ucast (bucket U32 2 0xFFFFFFFF)) = Inr 2
   \<and> at_vec [0, 1, 1, 2, 0 :: size_t] (ucast (bucket U32 2 0xFFFFFFFF + 1)) = Inr 0"
proof -
  have h1: "SearchPod32 U32 2 [0, 0x80000000, 0xC0000000]
     = Inr \<lparr>Lut = [0, 1, 1, 2, 0], Vals = [0, 0x80000000, 0xC0000000], LutEnd = 3\<rparr>"
    by code_simp
  have h2: "1 \<le> length [0, 0x80000000, 0xC0000000 :: val]" by simp
  have h3: "length [0, 0x80000000, 0xC0000000 :: val] < 2 ^ 64" by simp
  have b: "unat (bucket U32 2 0xFFFFFFFF) = 3" by (simp add: bucket_def)
  show ?thesis
    using h1 h2 h3 Lut_entries_and_accesses_in_range [where key = "0xFFFFFFFF", OF h1 h2 h3]
    by (simp add: b)
qed

subsection \<open>The end of the narrowed interval\<close>

lemma LutEnd_empty:
  assumes "SearchPod32 d B [] = Inr s"
  shows "LutEnd s = 0"
  using SearchPod32_Inr[OF assms] by (simp add: InitLut_loop.simps)

lemma unat_size_vec: "length xs < 2 ^ 64 \<Longrightarrow> unat (size_vec xs) = length xs"
  unfolding size_vec_def by (rule unat_word_of_nat_64)

text \<open>
  C6, as stated: the end of the narrowed interval is \<open>N - 1\<close> exactly when
  \<open>bucket + 1 > LutEnd\<close>, and \<open>Lut[bucket + 1] - 1\<close> otherwise. The condition of the
  code is \<open>lutIdx + 1 >= LutEnd\<close>. On the sorted array \<open>[0, 0x80000000, 0x80000001]\<close>
  with \<open>LUT_BITS = 1\<close> the table is \<open>[0, 1, 0]\<close> and \<open>LutEnd = 1\<close>; for the key 0,
  \<open>bucket + 1 = 1\<close> is not above \<open>LutEnd\<close>, and the end is \<open>N - 1 = 2\<close>, not
  \<open>Lut[1] - 1 = 0\<close>.
\<close>

theorem LutBinarySearch_end_strict_counterexample:
  "SearchPod32 U32 1 [0, 0x80000000, 0x80000001]
     = Inr \<lparr>Lut = [0, 1, 0], Vals = [0, 0x80000000, 0x80000001], LutEnd = 1\<rparr>
   \<and> \<not> ((LutBinarySearch_end U32 1
             \<lparr>Lut = [0, 1, 0], Vals = [0, 0x80000000, 0x80000001], LutEnd = 1\<rparr> 0
           = Inr (size_vec [0, 0x80000000, 0x80000001 :: val] - 1))
          = (LutEnd \<lparr>Lut = [0, 1, 0], Vals = [0, 0x80000000, 0x80000001], LutEnd = 1\<rparr>
               < ucast (bucket U32 1 0 + 1)))
   \<and> LutBinarySearch_end U32 1
         \<lparr>Lut = [0, 1, 0], Vals = [0, 0x80000000, 0x80000001], LutEnd = 1\<rparr> 0
       \<noteq> Inr ([0, 1, 0 :: size_t] ! 1 - 1)"
proof (intro conjI)
  show "SearchPod32 U32 1 [0, 0x80000000, 0x80000001]
     = Inr \<lparr>Lut = [0, 1, 0], Vals = [0, 0x80000000, 0x80000001], LutEnd = 1\<rparr>"
    by code_simp
qed (simp_all add: LutBinarySearch_end_def bucket_def size_vec_def)

text \<open>
  C6, amended: for every constructed SearchPod32 over an array of length \<open>N\<close> and every
  key with \<open>bucket = mappedKey >> (32 - LUT_BITS)\<close>, the end of the narrowed interval
  used by \<open>LutBinarySearch\<close> is \<open>N - 1\<close> (as a \<open>size_t\<close>) exactly when
  \<open>bucket + 1 >= LutEnd\<close>, and \<open>Lut[bucket + 1] - 1\<close> otherwise.
\<close>

theorem LutBinarySearch_end_cases:
  assumes "SearchPod32 d B vals = Inr s" and "length vals < 2 ^ 64"
  shows "LutBinarySearch_end d B s key
           = Inr (if LutEnd s \<le> ucast (bucket d B key + 1)
                  then size_vec (Vals s) - 1
                  else Lut s ! (unat (bucket d B key) + 1) - 1)
         \<and> (LutBinarySearch_end d B s key = Inr (size_vec (Vals s) - 1))
             = (LutEnd s \<le> ucast (bucket d B key + 1))"
proof -
  note inv = SearchPod32_invariants[OF assms]
  note bf = bucket_facts[OF inv(1) inv(2), of d key]
  let ?b1 = "ucast (bucket d B key + 1) :: size_t"
  have at: "at_vec (Lut s) ?b1 = Inr (Lut s ! (unat (bucket d B key) + 1))"
    using bf(3) by (simp add: at_vec_def bf(2) inv(4))
  have eq: "LutBinarySearch_end d B s key
           = Inr (if LutEnd s \<le> ?b1 then size_vec (Vals s) - 1
                  else Lut s ! (unat (bucket d B key) + 1) - 1)"
    using at by (simp add: LutBinarySearch_end_def bucket_def Let_def)
  have ne: "Lut s ! (unat (bucket d B key) + 1) - 1 \<noteq> size_vec (Vals s) - 1"
    if "\<not> LutEnd s \<le> ?b1"
  proof -
    have "vals \<noteq> []"
    proof
      assume "vals = []"
      with assms(1) have "LutEnd s = 0" by (simp add: LutEnd_empty)
      with that show False by simp
    qed
    then have pos: "1 \<le> length vals" by (cases vals) simp_all
    have "unat (Lut s ! (unat (bucket d B key) + 1)) \<le> length vals - 1"
      using bf(3) by (intro inv(6)) simp
    also have "\<dots> < unat (size_vec vals)" using pos assms(2) by (simp add: unat_size_vec)
    finally have "Lut s ! (unat (bucket d B key) + 1) \<noteq> size_vec vals" by auto
    then show ?thesis by (simp add: inv(3))
  qed
  show ?thesis using eq ne by auto
qed

theorem LutBinarySearch_end_cases_witness:
  "SearchPod32 U32 2 [0, 0x80000000, 0xC0000000]
     = Inr \<lparr>Lut = [0, 1, 1, 2, 0], Vals = [0, 0x80000000, 0xC0000000], LutEnd = 3\<rparr>
   \<and> length [0, 0x80000000, 0xC0000000 :: val] < 2 ^ 64
   \<and> LutBinarySearch_end U32 2
         \<lparr>Lut = [0, 1, 1, 2, 0], Vals = [0, 0x80000000, 0xC0000000], LutEnd = 3\<rparr> 0x40000000
       = Inr 0
   \<and> \<not> (3 :: size_t) \<le> ucast (bucket U32 2 0x40000000 + 1)"
proof -
  have h1: "SearchPod32 U32 2 [0, 0x80000000, 0xC0000000]
     = Inr \<lparr>Lut = [0, 1, 1, 2, 0], Vals = [0, 0x80000000, 0xC0000000], LutEnd = 3\<rparr>"
    by code_simp
  have h2: "length [0, 0x80000000, 0xC0000000 :: val] < 2 ^ 64" by simp
  have b: "bucket U32 2 0x40000000 = 1" by (simp add: bucket_def)
  show ?thesis
    using h1 h2 LutBinarySearch_end_cases [where key = "0x40000000", OF h1 h2]
    by (simp add: b size_vec_def)
qed

section \<open>LutBinarySearch when the first element is in bucket 0\<close>

text \<open>
  On an array whose buckets are non-decreasing (as on every sorted array of integers,
  lemma \<open>sorted_dom_bucket_mono\<close>) and whose first element is in bucket 0, the table
  entries up to \<open>LutEnd\<close> are the starts of the buckets, \<open>LutEnd\<close> is the bucket of
  the last element, and \<open>LutBinarySearch\<close> returns the first occurrence of a key taken
  from the array.
\<close>

lemma MapValue_mono_le:
  assumes "d \<noteq> F32" "\<not> less_dom d b a"
  shows "MapValue d a \<le> MapValue d b"
proof (cases d)
  case U32
  then show ?thesis using assms by simp
next
  case I32
  then have "sint a \<le> sint b" using assms by (simp add: word_sless_alt)
  then have "uint (a XOR 0x80000000) \<le> uint (b XOR 0x80000000)"
    by (simp only: uint_xor_msb)
  then show ?thesis using I32 by (simp add: word_le_def)
next
  case F32
  then show ?thesis using assms by simp
qed

lemma unat_drop_bit_mono:
  assumes "(a::32 word) \<le> b"
  shows "unat (drop_bit n a) \<le> unat (drop_bit n b)"
proof -
  have "unat a \<le> unat b" using assms by (simp add: word_le_nat_alt)
  then have "unat a div 2 ^ n \<le> unat b div 2 ^ n" by (rule div_le_mono)
  then have "drop_bit n (unat a) \<le> drop_bit n (unat b)" by (simp only: drop_bit_eq_div)
  then show ?thesis by (simp only: unat_drop_bit_eq)
qed

lemma sorted_dom_bucket_mono:
  assumes "d \<noteq> F32" "sorted_dom d vals" "i \<le> j" "j < length vals"
  shows "unat (bucket d B (vals ! i)) \<le> unat (bucket d B (vals ! j))"
proof (cases "i = j")
  case False
  with assms have "i < j" by simp
  with assms have "\<not> less_dom d (vals ! j) (vals ! i)"
    by (simp add: sorted_dom_def sorted_wrt_iff_nth_less)
  then have "MapValue d (vals ! i) \<le> MapValue d (vals ! j)"
    by (rule MapValue_mono_le[OF assms(1)])
  then show ?thesis unfolding bucket_def by (rule unat_drop_bit_mono)
qed simp

lemma first_bucket_ge_eqI:
  assumes "j \<le> length vals"
    and "\<And>k. k < j \<Longrightarrow> unat (bucket d B (vals ! k)) < t"
    and "j < length vals \<Longrightarrow> t \<le> unat (bucket d B (vals ! j))"
  shows "first_bucket_ge d B vals t = j"
proof -
  let ?P = "\<lambda>v. unat (bucket d B v) < t"
  let ?n = "length (takeWhile ?P vals)"
  have le: "?n \<le> length vals" by (rule length_takeWhile_le)
  have "\<not> ?n < j"
  proof
    assume a: "?n < j"
    then have "?n < length vals" using assms(1) by simp
    then have "\<not> ?P (vals ! ?n)" by (rule nth_length_takeWhile)
    with assms(2)[OF a] show False by simp
  qed
  moreover have "\<not> j < ?n"
  proof
    assume a: "j < ?n"
    then have "takeWhile ?P vals ! j \<in> set (takeWhile ?P vals)" by (rule nth_mem)
    then have "?P (takeWhile ?P vals ! j)" by (rule set_takeWhileD[THEN conjunct2])
    moreover have "takeWhile ?P vals ! j = vals ! j" using a by (rule takeWhile_nth)
    ultimately have "?P (vals ! j)" by simp
    moreover have "j < length vals" using a le by simp
    ultimately show False using assms(3) by simp
  qed
  ultimately show ?thesis by (simp add: first_bucket_ge_def)
qed

lemma InitLut_sem_same_bucket:
  assumes sem: "InitLut_sem d B vals i lut thresh last'"
    and B: "0 < B" "B \<le> 32"
    and mono: "\<And>j k. j \<le> k \<Longrightarrow> k < length vals \<Longrightarrow>
                 unat (bucket d B (vals ! j)) \<le> unat (bucket d B (vals ! k))"
    and nt: "\<not> thresh < ucast nt" "nt = drop_bit (32 - B) (MapValue d (vals ! (i + 1)))"
    and i: "i + 1 < length vals"
  shows "InitLut_sem d B vals (i + 1) (lut[unat thresh := last']) (ucast nt) last'"
proof -
  from sem have len: "length lut = 2 ^ B + 1"
    and th: "unat thresh = unat (bucket d B (vals ! i))"
    and la: "unat last' = first_bucket_ge d B vals (unat thresh)"
    and tab: "\<And>t. t \<le> unat thresh \<Longrightarrow> unat (lut ! t) = first_bucket_ge d B vals t"
    by (auto simp: InitLut_sem_def)
  have ntb: "unat (ucast nt :: size_t) = unat (bucket d B (vals ! (i + 1)))"
    by (simp only: unat_ucast_32_64 nt(2) bucket_def)
  have "unat (ucast nt :: size_t) \<le> unat thresh"
    using nt(1) by (simp add: word_less_nat_alt)
  moreover have "unat thresh \<le> unat (ucast nt :: size_t)"
    unfolding ntb th using i by (intro mono) simp_all
  ultimately have same: "unat (ucast nt :: size_t) = unat thresh" by simp
  have thB: "unat thresh < 2 ^ B" unfolding th bucket_def by (rule bucket_less[OF B])
  have "unat ((lut[unat thresh := last']) ! t) = first_bucket_ge d B vals t"
    if "t \<le> unat thresh" for t
    using that tab[OF that] la thB len by (cases "t = unat thresh") simp_all
  then show ?thesis
    unfolding InitLut_sem_def using i len la same ntb by simp
qed

lemma InitLut_sem_next_bucket:
  assumes sem: "InitLut_sem d B vals i lut thresh last'"
    and B: "0 < B" "B \<le> 32"
    and mono: "\<And>j k. j \<le> k \<Longrightarrow> k < length vals \<Longrightarrow>
                 unat (bucket d B (vals ! j)) \<le> unat (bucket d B (vals ! k))"
    and nt: "thresh < ucast nt" "nt = drop_bit (32 - B) (MapValue d (vals ! (i + 1)))"
    and i: "i + 1 < length vals"
    and l1: "unat l1 = i + 1"
  shows "InitLut_sem d B vals (i + 1)
           (InitLut_fill (lut[unat thresh := last']) (thresh + 1) nt l1) (ucast nt) l1"
proof -
  let ?lut1 = "lut[unat thresh := last']"
  let ?lut2 = "InitLut_fill ?lut1 (thresh + 1) nt l1"
  from sem have len: "length lut = 2 ^ B + 1"
    and th: "unat thresh = unat (bucket d B (vals ! i))"
    and la: "unat last' = first_bucket_ge d B vals (unat thresh)"
    and tab: "\<And>t. t \<le> unat thresh \<Longrightarrow> unat (lut ! t) = first_bucket_ge d B vals t"
    by (auto simp: InitLut_sem_def)
  have ntu: "unat (ucast nt :: size_t) = unat nt" by (rule unat_ucast_32_64)
  have ntb: "unat nt = unat (bucket d B (vals ! (i + 1)))" by (simp only: nt(2) bucket_def)
  have up: "unat thresh < unat nt" using nt(1) by (simp add: word_less_nat_alt ntu)
  have suc: "unat (thresh + 1) = unat thresh + 1" by (rule unat_succ_less[OF nt(1)])
  have ntB: "unat nt < 2 ^ B" unfolding nt(2) by (rule bucket_less[OF B])
  have thB: "unat thresh < 2 ^ B" using up ntB by simp
  have tab1: "unat (?lut1 ! t) = first_bucket_ge d B vals t" if "t \<le> unat thresh" for t
    using that tab[OF that] la thB len by (cases "t = unat thresh") simp_all
  have new: "first_bucket_ge d B vals t = i + 1" if "unat thresh < t" "t \<le> unat nt" for t
  proof (rule first_bucket_ge_eqI)
    show "i + 1 \<le> length vals" using i by simp
    show "unat (bucket d B (vals ! k)) < t" if "k < i + 1" for k
    proof -
      have "unat (bucket d B (vals ! k)) \<le> unat (bucket d B (vals ! i))"
        using that i by (intro mono) simp_all
      then show ?thesis using \<open>unat thresh < t\<close> th by simp
    qed
    show "t \<le> unat (bucket d B (vals ! (i + 1)))" using that(2) ntb by simp
  qed
  have nth2: "?lut2 ! t = (if unat thresh + 1 \<le> t \<and> t \<le> unat nt then l1 else ?lut1 ! t)"
    if "t < length lut" for t
    using that by (simp add: InitLut_fill_nth suc)
  have tab2: "unat (?lut2 ! t) = first_bucket_ge d B vals t" if "t \<le> unat nt" for t
  proof -
    have tl: "t < length lut" using that ntB len by simp
    show ?thesis
    proof (cases "unat thresh + 1 \<le> t")
      case True
      then show ?thesis using that new[of t] l1 by (simp add: nth2[OF tl])
    next
      case False
      then show ?thesis using tab1[of t] by (simp add: nth2[OF tl])
    qed
  qed
  have "unat l1 = first_bucket_ge d B vals (unat nt)" using new[of "unat nt"] up l1 by simp
  then show ?thesis
    unfolding InitLut_sem_def using i len tab2 ntb
    by (simp add: ntu InitLut_fill_length)
qed

lemma InitLut_loop_sem:
  assumes "InitLut_sem d B vals i lut thresh last'"
    and "0 < B" "B \<le> 32" "length vals < 2 ^ 64"
    and "\<And>j k. j \<le> k \<Longrightarrow> k < length vals \<Longrightarrow>
                 unat (bucket d B (vals ! j)) \<le> unat (bucket d B (vals ! k))"
  shows "case InitLut_loop d B vals i lut thresh last' of
           (lut', thresh', last'') \<Rightarrow> InitLut_sem d B vals (length vals - 1) lut' thresh' last''"
  using assms
proof (induction d B vals i lut thresh last' rule: InitLut_loop.induct)
  case (1 d B vals i lut thresh last')
  note mono = 1(7)
  show ?case
  proof (cases "int i < int (length vals) - 1")
    case False
    moreover have "i < length vals" using 1(3) by (simp add: InitLut_sem_def)
    ultimately have "i = length vals - 1" by simp
    then show ?thesis using False 1(3) by (subst InitLut_loop.simps) auto
  next
    case True
    then have i: "i + 1 < length vals" by simp
    let ?nt = "drop_bit (32 - B) (MapValue d (vals ! (i + 1)))"
    show ?thesis
    proof (cases "thresh < ucast ?nt")
      case up: True
      have "InitLut_sem d B vals (i + 1)
             (InitLut_fill (lut[unat thresh := last']) (thresh + 1) ?nt (word_of_nat (i + 1)))
             (ucast ?nt) (word_of_nat (i + 1))"
      proof (rule InitLut_sem_next_bucket[OF 1(3) 1(4) 1(5) mono up refl i])
        show "unat (word_of_nat (i + 1) :: size_t) = i + 1"
          using i 1(6) by (intro unat_word_of_nat_64) simp
      qed
      from 1(1)[OF True refl refl refl up refl this 1(4) 1(5) 1(6) mono]
      show ?thesis using True up by (subst InitLut_loop.simps) (simp add: Let_def)
    next
      case down: False
      have "InitLut_sem d B vals (i + 1) (lut[unat thresh := last']) (ucast ?nt) last'"
        by (rule InitLut_sem_same_bucket[OF 1(3) 1(4) 1(5) mono down refl i])
      from 1(2)[OF True refl refl refl down this 1(4) 1(5) 1(6) mono]
      show ?thesis using True down by (subst InitLut_loop.simps) (simp add: Let_def)
    qed
  qed
qed

lemma first_bucket_ge_0: "first_bucket_ge d B vals 0 = 0"
  by (cases vals) (simp_all add: first_bucket_ge_def)

lemma first_bucket_ge_le:
  assumes "k < length vals" "t \<le> unat (bucket d B (vals ! k))"
  shows "first_bucket_ge d B vals t \<le> k"
proof (rule ccontr)
  let ?P = "\<lambda>v. unat (bucket d B v) < t"
  assume "\<not> first_bucket_ge d B vals t \<le> k"
  then have a: "k < length (takeWhile ?P vals)" by (simp add: first_bucket_ge_def)
  then have "takeWhile ?P vals ! k \<in> set (takeWhile ?P vals)" by (rule nth_mem)
  then have "?P (takeWhile ?P vals ! k)" by (rule set_takeWhileD[THEN conjunct2])
  moreover have "takeWhile ?P vals ! k = vals ! k" using a by (rule takeWhile_nth)
  ultimately show False using assms(2) by simp
qed

lemma first_bucket_ge_bounds:
  assumes "k < length vals" "\<And>j. j \<le> k \<Longrightarrow> unat (bucket d B (vals ! j)) < t"
  shows "k < first_bucket_ge d B vals t" "first_bucket_ge d B vals t \<le> length vals"
proof -
  let ?P = "\<lambda>v. unat (bucket d B v) < t"
  let ?n = "length (takeWhile ?P vals)"
  show "first_bucket_ge d B vals t \<le> length vals"
    unfolding first_bucket_ge_def by (rule length_takeWhile_le)
  show "k < first_bucket_ge d B vals t"
  proof (rule ccontr)
    assume "\<not> k < first_bucket_ge d B vals t"
    then have le: "?n \<le> k" by (simp add: first_bucket_ge_def)
    then have "?n < length vals" using assms(1) by simp
    then have "\<not> ?P (vals ! ?n)" by (rule nth_length_takeWhile)
    with assms(2)[OF le] show False by simp
  qed
qed

lemma InitLut_sem_init:
  assumes "vals \<noteq> []" "bucket d B (vals ! 0) = 0"
  shows "InitLut_sem d B vals 0 (replicate (2 ^ B + 1) 0) 0 0"
proof -
  define n :: nat where "n = 2 ^ B + 1"
  have "0 < n" by (simp add: n_def)
  then have "InitLut_sem d B vals 0 (replicate n 0) 0 0"
    unfolding InitLut_sem_def using assms
    by (simp add: first_bucket_ge_0 n_def[symmetric]) (simp add: n_def)
  then show ?thesis by (simp only: n_def)
qed

lemma Lut_entry_first_of_bucket:
  assumes ctor: "SearchPod32 d B vals = Inr s" and N: "length vals < 2 ^ 64"
    and ne: "vals \<noteq> []" and b0: "bucket d B (vals ! 0) = 0"
    and mono: "\<And>j k. j \<le> k \<Longrightarrow> k < length vals \<Longrightarrow>
                 unat (bucket d B (vals ! j)) \<le> unat (bucket d B (vals ! k))"
  shows "unat (LutEnd s) = unat (bucket d B (vals ! (length vals - 1)))"
    and "\<And>t. t \<le> unat (LutEnd s) \<Longrightarrow> unat (Lut s ! t) = first_bucket_ge d B vals t"
proof -
  from SearchPod32_Inr[OF ctor] have B: "0 < B" "B \<le> 30" by simp_all
  then have B32: "B \<le> 32" by simp
  obtain lut thresh last' where
    loop: "InitLut_loop d B vals 0 (replicate (2 ^ B + 1) 0) 0 0 = (lut, thresh, last')"
    by (cases "InitLut_loop d B vals 0 (replicate (2 ^ B + 1) 0) 0 0") auto
  with SearchPod32_Inr[OF ctor]
  have s: "s = \<lparr>Lut = InitLut_rest lut thresh last', Vals = vals, LutEnd = thresh\<rparr>"
    by simp
  from InitLut_loop_sem[OF InitLut_sem_init[OF ne b0] B(1) B32 N mono] loop
  have sem: "InitLut_sem d B vals (length vals - 1) lut thresh last'" by simp
  then have len: "length lut = 2 ^ B + 1"
    and th: "unat thresh = unat (bucket d B (vals ! (length vals - 1)))"
    and la: "unat last' = first_bucket_ge d B vals (unat thresh)"
    and tab: "\<And>t. t \<le> unat thresh \<Longrightarrow> unat (lut ! t) = first_bucket_ge d B vals t"
    by (auto simp: InitLut_sem_def)
  have thB: "unat thresh < 2 ^ B" unfolding th bucket_def by (rule bucket_less[OF B(1) B32])
  have sz: "unat (size_vec lut - 1) = 2 ^ B" by (rule unat_size_vec_minus_1[OF len B(2)])
  show "unat (LutEnd s) = unat (bucket d B (vals ! (length vals - 1)))"
    using th by (simp add: s)
  show "unat (Lut s ! t) = first_bucket_ge d B vals t" if "t \<le> unat (LutEnd s)" for t
  proof -
    have t: "t \<le> unat thresh" using that by (simp add: s)
    then have "t < length lut" using thB len by simp
    then have "Lut s ! t = (if unat thresh \<le> t \<and> t < 2 ^ B then last' else lut ! t)"
      by (simp add: s InitLut_rest_nth sz)
    then show ?thesis using t thB la tab[OF t] by (cases "t = unat thresh") simp_all
  qed
qed

lemma eq_dom_refl: "\<not> isnan_dom d v \<Longrightarrow> eq_dom d v v"
  by (cases d) (simp_all add: float_eq_def)

lemma LutBinarySearch_first_occurrence:
  assumes ctor: "SearchPod32 d B vals = Inr s" and N: "length vals < 2 ^ 63"
    and srt: "sorted_dom d vals"
    and mono: "\<And>i j. i \<le> j \<Longrightarrow> j < length vals \<Longrightarrow>
                 unat (bucket d B (vals ! i)) \<le> unat (bucket d B (vals ! j))"
    and b0: "bucket d B (vals ! 0) = 0"
    and k: "k < length vals" and key: "vals ! k = key"
    and first: "\<And>j. j < k \<Longrightarrow> \<not> eq_dom d (vals ! j) key"
  shows "LutBinarySearch d B s key = Inr (int k)"
proof -
  let ?N = "length vals"
  let ?b = "unat (bucket d B key)"
  have N64: "?N < 2 ^ 64" using N by simp
  have ne: "vals \<noteq> []" using k by auto
  note inv = SearchPod32_invariants[OF ctor N64]
  note bf = bucket_facts[OF inv(1) inv(2), of d key]
  have sem1: "unat (LutEnd s) = unat (bucket d B (vals ! (?N - 1)))"
    by (rule Lut_entry_first_of_bucket(1)[OF ctor N64 ne b0 mono])
  have sem2: "unat (Lut s ! t) = first_bucket_ge d B vals t" if "t \<le> unat (LutEnd s)" for t
    using that by (rule Lut_entry_first_of_bucket(2)[OF ctor N64 ne b0 mono, rotated 2])
  have "\<not> isnan_dom d (vals ! k)"
    using srt k by (simp add: sorted_dom_def list_all_length)
  then have "eq_dom d (vals ! k) (vals ! k)" by (rule eq_dom_refl)
  then have found: "eq_dom d (vals ! k) key" by (simp only: key)
  have bk: "unat (bucket d B (vals ! k)) = ?b" by (simp add: key)
  have "unat (bucket d B (vals ! k)) \<le> unat (bucket d B (vals ! (?N - 1)))"
    using k by (intro mono) simp_all
  then have b_le_end: "?b \<le> unat (LutEnd s)" by (simp only: sem1 bk)
  let ?start = "Lut s ! ?b"
  have at_start: "at_vec (Lut s) (ucast (bucket d B key)) = Inr ?start"
    using bf(3) by (simp add: at_vec_def bf(1) inv(4))
  have start: "unat ?start = first_bucket_ge d B vals ?b" by (rule sem2[OF b_le_end])
  have start_le: "unat ?start \<le> k"
    unfolding start using k bk by (intro first_bucket_ge_le) simp_all
  obtain e where e: "LutBinarySearch_end d B s key = Inr e" and ek: "k \<le> unat e"
    and eN: "unat e < ?N"
  proof (cases "LutEnd s \<le> ucast (bucket d B key + 1)")
    case True
    have "LutBinarySearch_end d B s key = Inr (size_vec vals - 1)"
      using True by (simp add: LutBinarySearch_end_def bucket_def Let_def inv(3))
    moreover have "unat (size_vec vals - 1) = ?N - 1"
    proof -
      have "size_vec vals - 1 = word_of_nat (?N - 1)" using k by (simp add: size_vec_def)
      moreover have "?N - 1 < 2 ^ 64" using N64 by simp
      ultimately show ?thesis by (simp add: unat_of_nat)
    qed
    ultimately show ?thesis using that k by simp
  next
    case False
    then have lt: "?b + 1 < unat (LutEnd s)" by (simp add: word_le_nat_alt bf(2))
    let ?nx = "Lut s ! (?b + 1)"
    have "at_vec (Lut s) (ucast (bucket d B key + 1)) = Inr ?nx"
      using bf(3) by (simp add: at_vec_def bf(2) inv(4))
    then have eq: "LutBinarySearch_end d B s key = Inr (?nx - 1)"
      using False by (simp add: LutBinarySearch_end_def bucket_def Let_def)
    have nx: "unat ?nx = first_bucket_ge d B vals (?b + 1)" using lt by (intro sem2) simp
    have below: "unat (bucket d B (vals ! j)) < ?b + 1" if "j \<le> k" for j
      using mono[OF that k] bk by simp
    from first_bucket_ge_bounds[OF k below]
    have knx: "k < unat ?nx" and nxN: "unat ?nx \<le> ?N" unfolding nx by simp_all
    then have "1 \<le> ?nx" by (simp add: word_le_nat_alt)
    then have "unat (?nx - 1) = unat ?nx - 1" by (simp add: unat_sub)
    then show ?thesis using that[OF eq] knx nxN by simp
  qed
  have "BinarySearch d vals ?start e key = Inr (int k)"
    by (rule BinarySearch_first_occurrence[OF srt N k found first start_le ek eN])
  then show ?thesis
    using at_start e by (simp add: LutBinarySearch_def Let_def bucket_def inv(3))
qed

end
